theory Spec2Isabelle
  imports Main "HOL-Library.Word"
begin

section \<open>Background maintenance threads of bloomd (background.c)\<close>

text \<open>
  The three worker threads of \<^verbatim>\<open>background.c\<close> are embedded as functions that return the
  sequence of calls a thread makes on its collaborators (the filter manager, the clock, the
  log, the resident-set sampler) together with the way the thread ends. Everything a thread
  reads from outside (the shared flag \<^verbatim>\<open>*should_run\<close>, the result of a listing, a sample of
  the resident set) is taken from a \<open>world\<close>: the value the k-th read or call of that kind
  returns.
\<close>

subsection \<open>Machine integers and constants\<close>

text \<open>
  \<^verbatim>\<open>int\<close> and \<^verbatim>\<open>unsigned int\<close> are 32 bits wide. A \<open>c_int\<close> is read with \<open>sint\<close>, a
  \<open>c_uint\<close> with \<open>unat\<close>. Sizes in bytes (\<^verbatim>\<open>size_t\<close>) are only ever compared by the
  source, never added or multiplied, so they are natural numbers.
\<close>

type_synonym c_int = "32 word"
type_synonym c_uint = "32 word"
type_synonym size_t = nat

text \<open>\<^verbatim>\<open>#define PERIODIC_TIME_USEC 250000\<close>\<close>

definition PERIODIC_TIME_USEC :: nat where
  "PERIODIC_TIME_USEC = 250000"

text \<open>\<^verbatim>\<open>#define PERIODIC_CHECKPOINT 16\<close>, converted to \<^verbatim>\<open>unsigned int\<close> where it is used.\<close>

definition PERIODIC_CHECKPOINT :: c_uint where
  "PERIODIC_CHECKPOINT = 16"

text \<open>
  What traps ends the thread with a fault: a remainder by zero, the dereference of a null
  pointer.
\<close>

datatype fault = Division_by_zero | Null_dereference

text \<open>
  \<^verbatim>\<open>#define SEC_TO_TICKS(sec) ((sec * 4))\<close> on an \<^verbatim>\<open>int\<close>: the product is an \<^verbatim>\<open>int\<close>. The
  C standard leaves the product undefined when it does not fit; the compiled code keeps
  its low 32 bits, and so does the model.
\<close>

definition SEC_TO_TICKS :: "c_int \<Rightarrow> c_int" where
  "SEC_TO_TICKS sec = sec * 4"

subsection \<open>Configuration, world and trace\<close>

text \<open>
  Modelled from the spec: \<^verbatim>\<open>config.h\<close> is not among the sources. The three intervals are
  the fields of the maintenance configuration that this file reads as integers (they are
  printed with \<^verbatim>\<open>%d\<close> and compared with 0). The two memory percentages only enter the
  floating-point computation of the two thresholds, once, before the loop of the memory
  thread starts; the thresholds themselves are parameters of that thread below.
\<close>

record bloom_config =
  flush_interval :: c_int
  cold_interval :: c_int
  memory_check_interval :: c_int

text \<open>
  The world of one thread. \<open>should_run w k\<close> is the value the k-th read of \<^verbatim>\<open>*should_run\<close>
  sees (the flag is written by another thread); \<open>filtmgr_list_filters w k\<close> is the result
  code and the list (the names, in the order of the \<^verbatim>\<open>next\<close> pointers) of the k-th listing;
  \<open>getCurrentRSS w k\<close> is the k-th sample of the resident set. Counting starts at 0.
\<close>

record world =
  should_run :: "nat \<Rightarrow> c_int"
  filtmgr_list_filters :: "nat \<Rightarrow> c_int \<times> string list"
  filtmgr_list_cold_filters :: "nat \<Rightarrow> c_int \<times> string list"
  getCurrentRSS :: "nat \<Rightarrow> size_t"

text \<open>The local state of a thread: its tick counter, and how much of the world it has read.\<close>

record thread_state =
  ticks :: c_uint
  n_reads :: nat
  n_lists :: nat
  n_samples :: nat

definition init_state :: thread_state where
  "init_state = \<lparr>ticks = 0, n_reads = 0, n_lists = 0, n_samples = 0\<rparr>"

text \<open>The lines written to the log, one constructor for each format string of the source.\<close>

datatype log_msg =
    Flush_thread_started c_int
  | Scheduled_flush_started
  | Failed_to_list_filters
  | Cold_unmap_thread_started c_int
  | Cold_unmap_started
  | Cold_filter_count nat
  | Unmapping_cold string
  | Memory_check_thread_started c_int
  | Max_memory_exceeded
  | Unmapping_to_free_ram string

text \<open>
  The calls and reads of a thread, in program order. A listing carries its result code and
  the list it produced, a cleanup the list it releases, a read or a sample the value seen.
\<close>

datatype event =
    Read_should_run c_int
  | Usleep nat
  | Client_checkpoint
  | Syslog_info log_msg
  | Syslog_warning log_msg
  | List_filters c_int "string list"
  | List_cold_filters c_int "string list"
  | Flush_filter string
  | Unmap_filter string
  | Flush_and_unmap_filter string
  | Cleanup_list "string list"
  | Get_current_rss size_t

type_synonym 'a result = "event list \<times> (fault + 'a)"

subsection \<open>Starting the threads\<close>

text \<open>
  A start function either returns 0 at once, or packs the arguments and calls
  \<^verbatim>\<open>pthread_create\<close> with the thread's main function, and returns 1. The source discards
  the result of \<^verbatim>\<open>pthread_create\<close>; the model records the call.
\<close>

datatype thread_entry = Flush_thread_main | Unmap_thread_main | Memory_check_thread_main

datatype start_event = Pack_args bloom_config | Pthread_create thread_entry bloom_config

definition start_flush_thread :: "bloom_config \<Rightarrow> start_event list \<times> c_int" where
  "start_flush_thread config =
     (if sint (flush_interval config) \<le> 0 then ([], 0)
      else ([Pack_args config, Pthread_create Flush_thread_main config], 1))"

definition start_cold_unmap_thread :: "bloom_config \<Rightarrow> start_event list \<times> c_int" where
  "start_cold_unmap_thread config =
     (if sint (cold_interval config) \<le> 0 then ([], 0)
      else ([Pack_args config, Pthread_create Unmap_thread_main config], 1))"

definition start_memory_check_thread :: "bloom_config \<Rightarrow> start_event list \<times> c_int" where
  "start_memory_check_thread config =
     (if sint (memory_check_interval config) \<le> 0 then ([], 0)
      else ([Pack_args config, Pthread_create Memory_check_thread_main config], 1))"

subsection \<open>The passes over a listing\<close>

text \<open>
  \<^verbatim>\<open>if (!(++cmds % PERIODIC_CHECKPOINT)) filtmgr_client_checkpoint(mgr);\<close> with \<open>cmds\<close> the
  value before the increment.
\<close>

definition periodic_checkpoint :: "c_uint \<Rightarrow> event list" where
  "periodic_checkpoint cmds =
     (if (cmds + 1) mod PERIODIC_CHECKPOINT = 0 then [Client_checkpoint] else [])"

text \<open>
  The inner loop of \<^verbatim>\<open>flush_thread_main\<close>, \<^verbatim>\<open>while (node) { ... node = node->next; }\<close>. The
  result of \<^verbatim>\<open>filtmgr_flush_filter\<close> is ignored by the source.
\<close>

fun flush_pass :: "string list \<Rightarrow> c_uint \<Rightarrow> event list" where
  "flush_pass [] cmds = []"
| "flush_pass (filter_name # next) cmds =
     Flush_filter filter_name # periodic_checkpoint cmds @ flush_pass next (cmds + 1)"

text \<open>The inner loop of \<^verbatim>\<open>unmap_thread_main\<close>.\<close>

fun unmap_pass :: "string list \<Rightarrow> c_uint \<Rightarrow> event list" where
  "unmap_pass [] cmds = []"
| "unmap_pass (filter_name # next) cmds =
     Syslog_info (Unmapping_cold filter_name) # Unmap_filter filter_name #
     periodic_checkpoint cmds @ unmap_pass next (cmds + 1)"

text \<open>
  The inner loop of \<^verbatim>\<open>memory_check_thread_main\<close>,
  \<^verbatim>\<open>while (current_memory > safe_memory) { ... node->filter_name ... node = node->next; }\<close>.
  The loop tests the memory only: when the test passes at the end of the list, \<open>node\<close> is
  null and \<^verbatim>\<open>node->filter_name\<close> dereferences it.
\<close>

fun evict_loop ::
  "world \<Rightarrow> size_t \<Rightarrow> size_t \<Rightarrow> string list \<Rightarrow> c_uint \<Rightarrow> thread_state \<Rightarrow> thread_state result"
where
  "evict_loop w safe_memory current_memory [] cmds s =
     (if current_memory > safe_memory then ([], Inl Null_dereference) else ([], Inr s))"
| "evict_loop w safe_memory current_memory (filter_name # next) cmds s =
     (if current_memory > safe_memory then
        (let m = getCurrentRSS w (n_samples s);
             s' = s\<lparr>n_samples := Suc (n_samples s)\<rparr>;
             (es, r) = evict_loop w safe_memory m next (cmds + 1) s'
         in (Syslog_info (Unmapping_to_free_ram filter_name) #
             Flush_and_unmap_filter filter_name #
             periodic_checkpoint cmds @ Get_current_rss m # es, r))
      else ([], Inr s))"

subsection \<open>The action of each thread on a trigger\<close>

text \<open>The body of the \<^verbatim>\<open>if\<close> in \<^verbatim>\<open>flush_thread_main\<close>; \<^verbatim>\<open>continue\<close> ends it early.\<close>

definition flush_action :: "world \<Rightarrow> thread_state \<Rightarrow> thread_state result" where
  "flush_action w s =
     (let (res, head) = filtmgr_list_filters w (n_lists s);
          s' = s\<lparr>n_lists := Suc (n_lists s)\<rparr>
      in if res \<noteq> 0 then
           ([Syslog_info Scheduled_flush_started, List_filters res head,
             Syslog_warning Failed_to_list_filters], Inr s')
         else
           (Syslog_info Scheduled_flush_started # List_filters res head #
            flush_pass head 0 @ [Cleanup_list head], Inr s'))"

text \<open>The body of the \<^verbatim>\<open>if\<close> in \<^verbatim>\<open>unmap_thread_main\<close>.\<close>

definition unmap_action :: "world \<Rightarrow> thread_state \<Rightarrow> thread_state result" where
  "unmap_action w s =
     (let (res, head) = filtmgr_list_cold_filters w (n_lists s);
          s' = s\<lparr>n_lists := Suc (n_lists s)\<rparr>
      in if res \<noteq> 0 then
           ([Syslog_info Cold_unmap_started, List_cold_filters res head], Inr s')
         else
           (Syslog_info Cold_unmap_started # List_cold_filters res head #
            Syslog_info (Cold_filter_count (length head)) #
            unmap_pass head 0 @ [Cleanup_list head], Inr s'))"

text \<open>The body of the \<^verbatim>\<open>if\<close> in \<^verbatim>\<open>memory_check_thread_main\<close>.\<close>

definition memory_check_action ::
  "size_t \<Rightarrow> size_t \<Rightarrow> world \<Rightarrow> thread_state \<Rightarrow> thread_state result"
where
  "memory_check_action max_memory safe_memory w s =
     (let current_memory = getCurrentRSS w (n_samples s);
          s1 = s\<lparr>n_samples := Suc (n_samples s)\<rparr>
      in if current_memory > max_memory then
           (let (res, head) = filtmgr_list_filters w (n_lists s1);
                s2 = s1\<lparr>n_lists := Suc (n_lists s1)\<rparr>
            in if res \<noteq> 0 then
                 ([Get_current_rss current_memory, Syslog_info Max_memory_exceeded,
                   List_filters res head, Syslog_warning Failed_to_list_filters], Inr s2)
               else
                 (case evict_loop w safe_memory current_memory head 0 s2 of
                    (es, Inl f) \<Rightarrow>
                      (Get_current_rss current_memory # Syslog_info Max_memory_exceeded #
                       List_filters res head # es, Inl f)
                  | (es, Inr s3) \<Rightarrow>
                      (Get_current_rss current_memory # Syslog_info Max_memory_exceeded #
                       List_filters res head # es @ [Cleanup_list head], Inr s3)))
         else ([Get_current_rss current_memory], Inr s1))"

subsection \<open>The wake loop\<close>

text \<open>
  The three main functions share the text of their outer loop; it is written once here,
  with the interval and the action of the thread as parameters. One wake is the body of
  \<^verbatim>\<open>while (*should_run) { usleep(...); filtmgr_client_checkpoint(mgr);
  if ((++ticks % SEC_TO_TICKS(interval)) == 0 && *should_run) { action } }\<close>.
  The remainder is taken on \<^verbatim>\<open>unsigned int\<close> and traps when the tick count of the
  interval is 0; the second read of the flag happens only when the remainder is 0.
\<close>

definition wake ::
  "c_int \<Rightarrow> (world \<Rightarrow> thread_state \<Rightarrow> thread_state result) \<Rightarrow> world \<Rightarrow> thread_state \<Rightarrow>
   thread_state result"
where
  "wake interval action w s =
     (let ticks_per_interval = SEC_TO_TICKS interval in
      if ticks_per_interval = 0 then
        ([Usleep PERIODIC_TIME_USEC, Client_checkpoint], Inl Division_by_zero)
      else
        (let s1 = s\<lparr>ticks := ticks s + 1\<rparr> in
         if ticks s1 mod ticks_per_interval = 0 then
           (let v = should_run w (n_reads s1);
                s2 = s1\<lparr>n_reads := Suc (n_reads s1)\<rparr>
            in if v \<noteq> 0 then
                 (let (es, r) = action w s2
                  in (Usleep PERIODIC_TIME_USEC # Client_checkpoint #
                      Read_should_run v # es, r))
               else
                 ([Usleep PERIODIC_TIME_USEC, Client_checkpoint, Read_should_run v],
                  Inr s2))
         else ([Usleep PERIODIC_TIME_USEC, Client_checkpoint], Inr s1)))"

text \<open>
  How a thread ends: its main function returns, it faults, or the given number of wakes is
  used up with the thread still in its loop (in the state given).
\<close>

datatype outcome = Returned | Crashed fault | Still_running thread_state

text \<open>
  The loop \<^verbatim>\<open>while (*should_run) { ... }\<close>, for at most the given number of wakes. The loop
  has no bound of its own: it runs for as long as the flag reads nonzero.
\<close>

fun thread_loop ::
  "nat \<Rightarrow> c_int \<Rightarrow> (world \<Rightarrow> thread_state \<Rightarrow> thread_state result) \<Rightarrow> world \<Rightarrow> thread_state \<Rightarrow>
   event list \<times> outcome"
where
  "thread_loop 0 interval action w s = ([], Still_running s)"
| "thread_loop (Suc fuel) interval action w s =
     (let v = should_run w (n_reads s);
          s1 = s\<lparr>n_reads := Suc (n_reads s)\<rparr>
      in if v = 0 then ([Read_should_run v], Returned)
         else
           (case wake interval action w s1 of
              (es, Inl f) \<Rightarrow> (Read_should_run v # es, Crashed f)
            | (es, Inr s2) \<Rightarrow>
                (let (es', out) = thread_loop fuel interval action w s2
                 in (Read_should_run v # es @ es', out))))"

subsection \<open>The three main functions\<close>

definition flush_thread_main :: "nat \<Rightarrow> bloom_config \<Rightarrow> world \<Rightarrow> event list \<times> outcome" where
  "flush_thread_main fuel config w =
     (let (es, out) = thread_loop fuel (flush_interval config) flush_action w init_state
      in (Client_checkpoint # Syslog_info (Flush_thread_started (flush_interval config)) # es,
          out))"

definition unmap_thread_main :: "nat \<Rightarrow> bloom_config \<Rightarrow> world \<Rightarrow> event list \<times> outcome" where
  "unmap_thread_main fuel config w =
     (let (es, out) = thread_loop fuel (cold_interval config) unmap_action w init_state
      in (Client_checkpoint # Syslog_info (Cold_unmap_thread_started (cold_interval config)) # es,
          out))"

text \<open>
  \<open>max_memory\<close> and \<open>safe_memory\<close> are the two thresholds the source computes before the
  loop from the total memory and the two percentages.
\<close>

definition memory_check_thread_main ::
  "nat \<Rightarrow> bloom_config \<Rightarrow> size_t \<Rightarrow> size_t \<Rightarrow> world \<Rightarrow> event list \<times> outcome"
where
  "memory_check_thread_main fuel config max_memory safe_memory w =
     (let (es, out) =
        thread_loop fuel (memory_check_interval config)
          (memory_check_action max_memory safe_memory) w init_state
      in (Client_checkpoint #
          Syslog_info (Memory_check_thread_started (memory_check_interval config)) # es, out))"

text \<open>What \<^verbatim>\<open>pthread_create\<close> runs for each entry.\<close>

fun run_thread ::
  "thread_entry \<Rightarrow> nat \<Rightarrow> bloom_config \<Rightarrow> size_t \<Rightarrow> size_t \<Rightarrow> world \<Rightarrow> event list \<times> outcome"
where
  "run_thread Flush_thread_main fuel config max_memory safe_memory w =
     flush_thread_main fuel config w"
| "run_thread Unmap_thread_main fuel config max_memory safe_memory w =
     unmap_thread_main fuel config w"
| "run_thread Memory_check_thread_main fuel config max_memory safe_memory w =
     memory_check_thread_main fuel config max_memory safe_memory w"

subsection \<open>Reading a trace\<close>

text \<open>The names handed to \<^verbatim>\<open>filtmgr_flush_and_unmap_filter\<close>, in the order of the calls.\<close>

fun evicted :: "event list \<Rightarrow> string list" where
  "evicted [] = []"
| "evicted (Flush_and_unmap_filter filter_name # es) = filter_name # evicted es"
| "evicted (e # es) = evicted es"

text \<open>
  The events of the j-th eviction of a pass (counting from 0) over the listing \<open>names\<close>,
  when \<open>cmds\<close> operations were counted before the pass and the first sample after an
  eviction is sample number \<open>n\<close> of the world: the log line, the call, the checkpoint
  when it is due, and the sample taken afterwards.
\<close>

definition eviction :: "world \<Rightarrow> nat \<Rightarrow> string list \<Rightarrow> c_uint \<Rightarrow> nat \<Rightarrow> event list" where
  "eviction w n names cmds j =
     Syslog_info (Unmapping_to_free_ram (names ! j)) # Flush_and_unmap_filter (names ! j) #
     periodic_checkpoint (cmds + of_nat j) @
     [Get_current_rss (getCurrentRSS w (n + j))]"

text \<open>The two events that only the wake loop itself produces.\<close>

fun loop_event :: "event \<Rightarrow> bool" where
  "loop_event (Read_should_run v) = True"
| "loop_event (Usleep t) = True"
| "loop_event e = False"

fun is_usleep :: "event \<Rightarrow> bool" where
  "is_usleep (Usleep t) = True"
| "is_usleep e = False"

text \<open>Every \<^verbatim>\<open>usleep\<close> of the trace is followed at once by a checkpoint.\<close>

fun checkpoint_follows_sleep :: "event list \<Rightarrow> bool" where
  "checkpoint_follows_sleep [] = True"
| "checkpoint_follows_sleep (e # es) =
     ((if is_usleep e then (case es of [] \<Rightarrow> False | e' # es' \<Rightarrow> e' = Client_checkpoint)
       else True) \<and> checkpoint_follows_sleep es)"

text \<open>The names handed to \<^verbatim>\<open>filtmgr_flush_filter\<close> and to \<^verbatim>\<open>filtmgr_unmap_filter\<close>.\<close>

fun flushed :: "event list \<Rightarrow> string list" where
  "flushed [] = []"
| "flushed (Flush_filter filter_name # es) = filter_name # flushed es"
| "flushed (e # es) = flushed es"

fun unmapped :: "event list \<Rightarrow> string list" where
  "unmapped [] = []"
| "unmapped (Unmap_filter filter_name # es) = filter_name # unmapped es"
| "unmapped (e # es) = unmapped es"

text \<open>
  After the first read of the flag that sees 0, the trace holds nothing but further reads
  that see 0.
\<close>

fun quiet_after_stop :: "event list \<Rightarrow> bool" where
  "quiet_after_stop [] = True"
| "quiet_after_stop (e # es) =
     (if e = Read_should_run 0 then list_all (\<lambda>x. x = Read_should_run 0) es
      else quiet_after_stop es)"

text \<open>
  Every successful listing of the trace is released exactly once, with the list it
  produced, before the next listing and before the trace ends; nothing else is released.
  \<open>pending\<close> is the list obtained and not yet released.
\<close>

fun released_once :: "string list option \<Rightarrow> event list \<Rightarrow> bool" where
  "released_once pending [] = (pending = None)"
| "released_once pending (List_filters res head # es) =
     (pending = None \<and> released_once (if res = 0 then Some head else None) es)"
| "released_once pending (List_cold_filters res head # es) =
     (pending = None \<and> released_once (if res = 0 then Some head else None) es)"
| "released_once pending (Cleanup_list head # es) =
     (pending = Some head \<and> released_once None es)"
| "released_once pending (e # es) = released_once pending es"

text \<open>The listings and the cleanup.\<close>

fun listing_event :: "event \<Rightarrow> bool" where
  "listing_event (List_filters res head) = True"
| "listing_event (List_cold_filters res head) = True"
| "listing_event (Cleanup_list head) = True"
| "listing_event e = False"

subsection \<open>The three threads, uniformly\<close>

text \<open>
  The interval a thread reads, the action it runs on a trigger and the line it logs at its
  start, by entry point, so that a property of all three threads is stated once.
\<close>

fun interval_of :: "thread_entry \<Rightarrow> bloom_config \<Rightarrow> c_int" where
  "interval_of Flush_thread_main config = flush_interval config"
| "interval_of Unmap_thread_main config = cold_interval config"
| "interval_of Memory_check_thread_main config = memory_check_interval config"

fun action_of ::
  "thread_entry \<Rightarrow> size_t \<Rightarrow> size_t \<Rightarrow> world \<Rightarrow> thread_state \<Rightarrow> thread_state result"
where
  "action_of Flush_thread_main max_memory safe_memory = flush_action"
| "action_of Unmap_thread_main max_memory safe_memory = unmap_action"
| "action_of Memory_check_thread_main max_memory safe_memory =
     memory_check_action max_memory safe_memory"

fun started_line :: "thread_entry \<Rightarrow> bloom_config \<Rightarrow> log_msg" where
  "started_line Flush_thread_main config = Flush_thread_started (flush_interval config)"
| "started_line Unmap_thread_main config = Cold_unmap_thread_started (cold_interval config)"
| "started_line Memory_check_thread_main config =
     Memory_check_thread_started (memory_check_interval config)"

subsection \<open>Worlds used as concrete inputs\<close>

text \<open>
  Two filters, a resident set that stays at 100 bytes whatever is evicted, and a flag that
  is never cleared.
\<close>

definition stubborn_world :: world where
  "stubborn_world =
     \<lparr>should_run = (\<lambda>k. 1),
      filtmgr_list_filters = (\<lambda>k. (0, [''a'', ''b''])),
      filtmgr_list_cold_filters = (\<lambda>k. (0, [])),
      getCurrentRSS = (\<lambda>k. 100)\<rparr>"

text \<open>
  Five filters, a resident set that starts at 100 bytes and shrinks by 30 with every
  sample, and a flag that is never cleared.
\<close>

definition draining_world :: world where
  "draining_world =
     \<lparr>should_run = (\<lambda>k. 1),
      filtmgr_list_filters = (\<lambda>k. (0, [''a'', ''b'', ''c'', ''d'', ''e''])),
      filtmgr_list_cold_filters = (\<lambda>k. (0, [])),
      getCurrentRSS = (\<lambda>k. 100 - 30 * k)\<rparr>"

text \<open>
  One filter; the first listing of either kind fails with -1 and the later ones succeed;
  the resident set is 100 bytes for two samples and 10 afterwards.
\<close>

definition flaky_world :: world where
  "flaky_world =
     \<lparr>should_run = (\<lambda>k. 1),
      filtmgr_list_filters = (\<lambda>k. if k = 0 then (- 1, []) else (0, [''a''])),
      filtmgr_list_cold_filters = (\<lambda>k. if k = 0 then (- 1, []) else (0, [''a''])),
      getCurrentRSS = (\<lambda>k. if k < 2 then 100 else 10)\<rparr>"

text \<open>
  Two filters in either listing; the flag reads 1 five times and 0 from then on (it is
  cleared while the pass of the fourth wake runs); the resident set is 100 bytes at the
  first sample and 10 afterwards.
\<close>

definition cancelling_world :: world where
  "cancelling_world =
     \<lparr>should_run = (\<lambda>k. if k < 5 then 1 else 0),
      filtmgr_list_filters = (\<lambda>k. (0, [''a'', ''b''])),
      filtmgr_list_cold_filters = (\<lambda>k. (0, [''a'', ''b''])),
      getCurrentRSS = (\<lambda>k. if k = 0 then 100 else 10)\<rparr>"

text \<open>No filter at all, and a resident set that stays at 100 bytes.\<close>

definition empty_world :: world where
  "empty_world =
     \<lparr>should_run = (\<lambda>k. 1),
      filtmgr_list_filters = (\<lambda>k. (0, [])),
      filtmgr_list_cold_filters = (\<lambda>k. (0, [])),
      getCurrentRSS = (\<lambda>k. 100)\<rparr>"

section \<open>Properties\<close>

subsection \<open>Counting the checkpoints of a pass\<close>

lemma cmds_mod_16: "unat ((cmds :: c_uint) + 1) mod 16 = Suc (unat cmds) mod 16"
proof -
  have "unat (cmds + 1) = Suc (unat cmds) mod 2 ^ 32"
    by (simp add: unat_word_ariths)
  moreover have "(16::nat) dvd 2 ^ 32" by simp
  ultimately show ?thesis by (simp only: mod_mod_cancel)
qed

lemma periodic_checkpoint_count:
  "count_list (periodic_checkpoint cmds) Client_checkpoint =
     (if Suc (unat cmds) mod 16 = 0 then 1 else 0)"
proof -
  have "((cmds + 1) mod 16 = 0) = (unat ((cmds + 1) mod 16) = 0)"
    by (simp add: unat_eq_0)
  also have "\<dots> = (Suc (unat cmds) mod 16 = 0)"
    by (simp add: unat_mod cmds_mod_16)
  finally show ?thesis
    by (simp add: periodic_checkpoint_def PERIODIC_CHECKPOINT_def)
qed

lemma div16_step:
  "(if Suc c mod 16 = 0 then 1 else 0) + (Suc c mod 16 + n) div 16 =
   (c mod 16 + Suc n) div (16::nat)"
proof (cases "Suc (c mod 16) = 16")
  case True
  then have "c mod 16 = 15" by simp
  then show ?thesis by (simp add: mod_Suc)
next
  case False
  then show ?thesis by (simp add: mod_Suc)
qed

lemma flush_pass_checkpoints:
  "count_list (flush_pass names cmds) Client_checkpoint =
   (unat cmds mod 16 + length names) div 16"
proof (induction names arbitrary: cmds)
  case Nil
  then show ?case by simp
next
  case (Cons a names)
  have "count_list (flush_pass (a # names) cmds) Client_checkpoint =
        (if Suc (unat cmds) mod 16 = 0 then 1 else 0) +
        (Suc (unat cmds) mod 16 + length names) div 16"
    by (simp add: Cons.IH periodic_checkpoint_count cmds_mod_16)
  also have "\<dots> = (unat cmds mod 16 + Suc (length names)) div 16"
    by (rule div16_step)
  finally show ?case by simp
qed

lemma unmap_pass_checkpoints:
  "count_list (unmap_pass names cmds) Client_checkpoint =
   (unat cmds mod 16 + length names) div 16"
proof (induction names arbitrary: cmds)
  case Nil
  then show ?case by simp
next
  case (Cons a names)
  have "count_list (unmap_pass (a # names) cmds) Client_checkpoint =
        (if Suc (unat cmds) mod 16 = 0 then 1 else 0) +
        (Suc (unat cmds) mod 16 + length names) div 16"
    by (simp add: Cons.IH periodic_checkpoint_count cmds_mod_16)
  also have "\<dots> = (unat cmds mod 16 + Suc (length names)) div 16"
    by (rule div16_step)
  finally show ?case by simp
qed

lemma evicted_append: "evicted (xs @ ys) = evicted xs @ evicted ys"
  by (induction xs rule: evicted.induct) simp_all

lemma evicted_periodic_checkpoint: "evicted (periodic_checkpoint cmds) = []"
  by (simp add: periodic_checkpoint_def)

lemma evict_loop_Cons_above:
  "safe_memory < m \<Longrightarrow>
   evict_loop w safe_memory m (a # names) cmds s =
     (Syslog_info (Unmapping_to_free_ram a) # Flush_and_unmap_filter a #
      periodic_checkpoint cmds @ Get_current_rss (getCurrentRSS w (n_samples s)) #
      fst (evict_loop w safe_memory (getCurrentRSS w (n_samples s)) names (cmds + 1)
             (s\<lparr>n_samples := Suc (n_samples s)\<rparr>)),
      snd (evict_loop w safe_memory (getCurrentRSS w (n_samples s)) names (cmds + 1)
             (s\<lparr>n_samples := Suc (n_samples s)\<rparr>)))"
  by (simp add: split_beta Let_def)

lemma evict_loop_checkpoints:
  "count_list (fst (evict_loop w safe_memory m names cmds s)) Client_checkpoint =
   (unat cmds mod 16 + length (evicted (fst (evict_loop w safe_memory m names cmds s)))) div 16"
proof (induction names arbitrary: m cmds s)
  case Nil
  then show ?case by simp
next
  case (Cons a names)
  show ?case
  proof (cases "m > safe_memory")
    case False
    then show ?thesis by simp
  next
    case True
    let ?r = "evict_loop w safe_memory (getCurrentRSS w (n_samples s)) names (cmds + 1)
                (s\<lparr>n_samples := Suc (n_samples s)\<rparr>)"
    note step = evict_loop_Cons_above [OF True, of w a names cmds s]
    have "count_list (fst (evict_loop w safe_memory m (a # names) cmds s)) Client_checkpoint =
        (if Suc (unat cmds) mod 16 = 0 then 1 else 0) +
        (Suc (unat cmds) mod 16 + length (evicted (fst ?r))) div 16"
      by (simp add: step Cons.IH periodic_checkpoint_count cmds_mod_16 del: evict_loop.simps)
    also have "\<dots> = (unat cmds mod 16 + Suc (length (evicted (fst ?r)))) div 16"
      by (rule div16_step)
    finally show ?thesis
      by (simp add: step evicted_append evicted_periodic_checkpoint del: evict_loop.simps)
  qed
qed

subsection \<open>Shape of the traces\<close>

lemma run_thread_unfold:
  "run_thread entry fuel config max_memory safe_memory w =
     (Client_checkpoint # Syslog_info (started_line entry config) #
      fst (thread_loop fuel (interval_of entry config) (action_of entry max_memory safe_memory)
             w init_state),
      snd (thread_loop fuel (interval_of entry config) (action_of entry max_memory safe_memory)
             w init_state))"
  by (cases entry)
    (simp_all add: flush_thread_main_def unmap_thread_main_def memory_check_thread_main_def
      split_beta)

lemma periodic_checkpoint_no_loop_event: "e \<in> set (periodic_checkpoint cmds) \<Longrightarrow> \<not> loop_event e"
  by (auto simp: periodic_checkpoint_def split: if_splits)

lemma flush_pass_no_loop_event: "e \<in> set (flush_pass names cmds) \<Longrightarrow> \<not> loop_event e"
  by (induction names arbitrary: cmds) (auto dest: periodic_checkpoint_no_loop_event)

lemma unmap_pass_no_loop_event: "e \<in> set (unmap_pass names cmds) \<Longrightarrow> \<not> loop_event e"
  by (induction names arbitrary: cmds) (auto dest: periodic_checkpoint_no_loop_event)

lemma evict_loop_no_loop_event:
  "e \<in> set (fst (evict_loop w safe_memory m names cmds s)) \<Longrightarrow> \<not> loop_event e"
proof (induction names arbitrary: m cmds s)
  case Nil
  then show ?case by (simp split: if_splits)
next
  case (Cons a names)
  show ?case
  proof (cases "safe_memory < m")
    case True
    from Cons.prems show ?thesis
      unfolding evict_loop_Cons_above [OF True]
      by (auto dest: periodic_checkpoint_no_loop_event Cons.IH)
  next
    case False
    with Cons.prems show ?thesis by simp
  qed
qed

lemma flush_action_no_loop_event: "e \<in> set (fst (flush_action w s)) \<Longrightarrow> \<not> loop_event e"
  by (auto simp: flush_action_def split_beta Let_def split: if_splits
      dest: flush_pass_no_loop_event)

lemma unmap_action_no_loop_event: "e \<in> set (fst (unmap_action w s)) \<Longrightarrow> \<not> loop_event e"
  by (auto simp: unmap_action_def split_beta Let_def split: if_splits
      dest: unmap_pass_no_loop_event)

lemma memory_check_action_no_loop_event:
  "e \<in> set (fst (memory_check_action max_memory safe_memory w s)) \<Longrightarrow> \<not> loop_event e"
  by (auto simp: memory_check_action_def split_beta Let_def
      split: if_splits sum.splits dest: evict_loop_no_loop_event)

lemma action_of_no_loop_event:
  "e \<in> set (fst (action_of entry max_memory safe_memory w s)) \<Longrightarrow> \<not> loop_event e"
  by (cases entry)
    (auto dest: flush_action_no_loop_event unmap_action_no_loop_event
      memory_check_action_no_loop_event)

lemma wake_trace:
  "fst (wake interval action w s) = [Usleep PERIODIC_TIME_USEC, Client_checkpoint] \<or>
   (\<exists>v. fst (wake interval action w s) =
      [Usleep PERIODIC_TIME_USEC, Client_checkpoint, Read_should_run v]) \<or>
   (\<exists>v s2. fst (wake interval action w s) =
      Usleep PERIODIC_TIME_USEC # Client_checkpoint # Read_should_run v # fst (action w s2))"
  by (auto simp: wake_def Let_def split_beta split: sum.splits)

lemma checkpoint_follows_sleep_append:
  "\<forall>e\<in>set xs. \<not> loop_event e \<Longrightarrow>
   checkpoint_follows_sleep (xs @ ys) = checkpoint_follows_sleep ys"
proof (induction xs)
  case Nil
  then show ?case by simp
next
  case (Cons e xs)
  then show ?case by (cases e) simp_all
qed

lemma checkpoint_follows_sleep_Read:
  "checkpoint_follows_sleep (Read_should_run v # es) = checkpoint_follows_sleep es"
  by simp

lemma checkpoint_follows_sleep_wake:
  assumes "\<And>w s e. e \<in> set (fst (action w s)) \<Longrightarrow> \<not> loop_event e"
  shows "checkpoint_follows_sleep (fst (wake interval action w s) @ ys) =
         checkpoint_follows_sleep ys"
  using wake_trace [of interval action w s]
proof (elim disjE exE)
  fix v s2
  assume "fst (wake interval action w s) =
      Usleep PERIODIC_TIME_USEC # Client_checkpoint # Read_should_run v # fst (action w s2)"
  then show ?thesis
    using assms by (simp add: checkpoint_follows_sleep_append)
qed simp_all

lemma checkpoint_follows_sleep_wake_only:
  assumes "\<And>w s e. e \<in> set (fst (action w s)) \<Longrightarrow> \<not> loop_event e"
  shows "checkpoint_follows_sleep (fst (wake interval action w s))"
  using checkpoint_follows_sleep_wake [OF assms, where ys = "[]" and interval = interval
      and w = w and s = s] by simp

lemma thread_loop_Suc:
  "thread_loop (Suc fuel) interval action w s =
     (if should_run w (n_reads s) = 0 then ([Read_should_run 0], Returned)
      else case snd (wake interval action w (s\<lparr>n_reads := Suc (n_reads s)\<rparr>)) of
             Inl f \<Rightarrow>
               (Read_should_run (should_run w (n_reads s)) #
                fst (wake interval action w (s\<lparr>n_reads := Suc (n_reads s)\<rparr>)), Crashed f)
           | Inr s2 \<Rightarrow>
               (Read_should_run (should_run w (n_reads s)) #
                fst (wake interval action w (s\<lparr>n_reads := Suc (n_reads s)\<rparr>)) @
                fst (thread_loop fuel interval action w s2),
                snd (thread_loop fuel interval action w s2)))"
  by (simp add: Let_def split_beta split: sum.splits prod.splits)

lemma checkpoint_follows_sleep_loop:
  assumes "\<And>w s e. e \<in> set (fst (action w s)) \<Longrightarrow> \<not> loop_event e"
  shows "checkpoint_follows_sleep (fst (thread_loop fuel interval action w s))"
proof (induction fuel arbitrary: s)
  case 0
  then show ?case by simp
next
  case (Suc fuel)
  show ?case
    by (simp add: thread_loop_Suc checkpoint_follows_sleep_wake [OF assms]
        checkpoint_follows_sleep_wake_only [OF assms] Suc.IH
        del: thread_loop.simps split: sum.splits)
qed

subsection \<open>The actions, case by case\<close>

lemma flush_action_failed:
  "fst (filtmgr_list_filters w (n_lists s)) \<noteq> 0 \<Longrightarrow>
   flush_action w s =
     ([Syslog_info Scheduled_flush_started,
       List_filters (fst (filtmgr_list_filters w (n_lists s)))
         (snd (filtmgr_list_filters w (n_lists s))),
       Syslog_warning Failed_to_list_filters],
      Inr (s\<lparr>n_lists := Suc (n_lists s)\<rparr>))"
  by (simp add: flush_action_def split_beta)

lemma flush_action_listed:
  "filtmgr_list_filters w (n_lists s) = (0, names) \<Longrightarrow>
   flush_action w s =
     (Syslog_info Scheduled_flush_started # List_filters 0 names #
      flush_pass names 0 @ [Cleanup_list names],
      Inr (s\<lparr>n_lists := Suc (n_lists s)\<rparr>))"
  by (simp add: flush_action_def)

lemma unmap_action_failed:
  "fst (filtmgr_list_cold_filters w (n_lists s)) \<noteq> 0 \<Longrightarrow>
   unmap_action w s =
     ([Syslog_info Cold_unmap_started,
       List_cold_filters (fst (filtmgr_list_cold_filters w (n_lists s)))
         (snd (filtmgr_list_cold_filters w (n_lists s)))],
      Inr (s\<lparr>n_lists := Suc (n_lists s)\<rparr>))"
  by (simp add: unmap_action_def split_beta)

lemma unmap_action_listed:
  "filtmgr_list_cold_filters w (n_lists s) = (0, names) \<Longrightarrow>
   unmap_action w s =
     (Syslog_info Cold_unmap_started # List_cold_filters 0 names #
      Syslog_info (Cold_filter_count (length names)) #
      unmap_pass names 0 @ [Cleanup_list names],
      Inr (s\<lparr>n_lists := Suc (n_lists s)\<rparr>))"
  by (simp add: unmap_action_def)

lemma memory_check_action_failed:
  "max_memory < getCurrentRSS w (n_samples s) \<Longrightarrow>
   fst (filtmgr_list_filters w (n_lists s)) \<noteq> 0 \<Longrightarrow>
   memory_check_action max_memory safe_memory w s =
     ([Get_current_rss (getCurrentRSS w (n_samples s)), Syslog_info Max_memory_exceeded,
       List_filters (fst (filtmgr_list_filters w (n_lists s)))
         (snd (filtmgr_list_filters w (n_lists s))),
       Syslog_warning Failed_to_list_filters],
      Inr (s\<lparr>n_samples := Suc (n_samples s), n_lists := Suc (n_lists s)\<rparr>))"
  by (simp add: memory_check_action_def split_beta)

lemma memory_check_action_below:
  "getCurrentRSS w (n_samples s) \<le> max_memory \<Longrightarrow>
   memory_check_action max_memory safe_memory w s =
     ([Get_current_rss (getCurrentRSS w (n_samples s))],
      Inr (s\<lparr>n_samples := Suc (n_samples s)\<rparr>))"
  by (simp add: memory_check_action_def)

lemma memory_check_action_listed:
  "max_memory < getCurrentRSS w (n_samples s) \<Longrightarrow>
   filtmgr_list_filters w (n_lists s) = (0, names) \<Longrightarrow>
   evict_loop w safe_memory (getCurrentRSS w (n_samples s)) names 0
     (s\<lparr>n_samples := Suc (n_samples s), n_lists := Suc (n_lists s)\<rparr>) = (es, Inr s3) \<Longrightarrow>
   memory_check_action max_memory safe_memory w s =
     (Get_current_rss (getCurrentRSS w (n_samples s)) # Syslog_info Max_memory_exceeded #
      List_filters 0 names # es @ [Cleanup_list names], Inr s3)"
  by (simp add: memory_check_action_def)

lemma evict_loop_below:
  "m \<le> safe_memory \<Longrightarrow> evict_loop w safe_memory m names cmds s = ([], Inr s)"
  by (cases names) simp_all

lemma concat_map_upt_Suc:
  "concat (map f [0..<Suc k]) = f 0 @ concat (map (\<lambda>j. f (Suc j)) [0..<k])"
proof -
  have "[0..<Suc k] = 0 # map Suc [0..<k]"
    by (simp add: upt_conv_Cons map_Suc_upt del: upt_Suc)
  then show ?thesis by (simp add: comp_def del: upt_Suc)
qed

lemma evict_loop_trace:
  assumes "0 < n_samples s"
    and "m = getCurrentRSS w (n_samples s - 1)"
    and "k \<le> length names"
    and "\<forall>j<k. safe_memory < getCurrentRSS w (n_samples s - 1 + j)"
    and "getCurrentRSS w (n_samples s - 1 + k) \<le> safe_memory"
  shows "evict_loop w safe_memory m names cmds s =
           (concat (map (eviction w (n_samples s) names cmds) [0..<k]),
            Inr (s\<lparr>n_samples := n_samples s + k\<rparr>))"
  using assms
proof (induction k arbitrary: m names cmds s)
  case 0
  then show ?case by (simp add: evict_loop_below)
next
  case (Suc k)
  from Suc.prems(3) obtain a rest where names: "names = a # rest" and k: "k \<le> length rest"
    by (cases names) auto
  from Suc.prems(2,4) have above: "safe_memory < m" by auto
  let ?s = "s\<lparr>n_samples := Suc (n_samples s)\<rparr>"
  let ?m = "getCurrentRSS w (n_samples s)"
  have IH: "evict_loop w safe_memory ?m rest (cmds + 1) ?s =
           (concat (map (eviction w (n_samples ?s) rest (cmds + 1)) [0..<k]),
            Inr (?s\<lparr>n_samples := n_samples ?s + k\<rparr>))"
  proof (rule Suc.IH)
    show "0 < n_samples ?s" by simp
    show "?m = getCurrentRSS w (n_samples ?s - 1)" by simp
    show "k \<le> length rest" by (rule k)
    show "\<forall>j<k. safe_memory < getCurrentRSS w (n_samples ?s - 1 + j)"
    proof (intro allI impI)
      fix j assume "j < k"
      then have "Suc j < Suc k" by simp
      with Suc.prems(4) have "safe_memory < getCurrentRSS w (n_samples s - 1 + Suc j)"
        by blast
      with Suc.prems(1) show "safe_memory < getCurrentRSS w (n_samples ?s - 1 + j)"
        by simp
    qed
    show "getCurrentRSS w (n_samples ?s - 1 + k) \<le> safe_memory"
      using Suc.prems(1,5) by simp
  qed
  have later: "eviction w (n_samples s) (a # rest) cmds (Suc j) =
      eviction w (n_samples ?s) rest (cmds + 1) j" for j
    by (simp add: eviction_def add.assoc)
  have first: "eviction w (n_samples s) (a # rest) cmds 0 =
      Syslog_info (Unmapping_to_free_ram a) # Flush_and_unmap_filter a #
      periodic_checkpoint cmds @ [Get_current_rss ?m]"
    by (simp add: eviction_def)
  show ?case
    unfolding names evict_loop_Cons_above [OF above] IH concat_map_upt_Suc later first
    by simp
qed

lemma evicted_eviction: "evicted (eviction w n names cmds j) = [names ! j]"
  by (simp add: eviction_def evicted_append evicted_periodic_checkpoint)

lemma evicted_evictions:
  "k \<le> length names \<Longrightarrow>
   evicted (concat (map (eviction w n names cmds) [0..<k])) = take k names"
proof (induction k)
  case 0
  then show ?case by simp
next
  case (Suc k)
  then show ?case
    by (simp add: evicted_append evicted_eviction take_Suc_conv_app_nth)
qed

lemma memory_check_action_evicts:
  assumes "max_memory < getCurrentRSS w (n_samples s)"
    and "filtmgr_list_filters w (n_lists s) = (0, names)"
    and "k \<le> length names"
    and "\<forall>j<k. safe_memory < getCurrentRSS w (n_samples s + j)"
    and "getCurrentRSS w (n_samples s + k) \<le> safe_memory"
  shows "memory_check_action max_memory safe_memory w s =
        (Get_current_rss (getCurrentRSS w (n_samples s)) # Syslog_info Max_memory_exceeded #
         List_filters 0 names #
         concat (map (eviction w (Suc (n_samples s)) names 0) [0..<k]) @ [Cleanup_list names],
         Inr (s\<lparr>n_samples := Suc (n_samples s) + k, n_lists := Suc (n_lists s)\<rparr>))"
proof -
  let ?s2 = "s\<lparr>n_samples := Suc (n_samples s), n_lists := Suc (n_lists s)\<rparr>"
  have loop: "evict_loop w safe_memory (getCurrentRSS w (n_samples s)) names 0 ?s2 =
      (concat (map (eviction w (n_samples ?s2) names 0) [0..<k]),
       Inr (?s2\<lparr>n_samples := n_samples ?s2 + k\<rparr>))"
    using assms(3,4,5) by (intro evict_loop_trace) simp_all
  from memory_check_action_listed [OF assms(1,2) loop] show ?thesis
    by simp
qed

subsection \<open>The tick test\<close>

lemma thread_loop_continues:
  "should_run w (n_reads s) \<noteq> 0 \<Longrightarrow>
   wake interval action w (s\<lparr>n_reads := Suc (n_reads s)\<rparr>) = (es, Inr s2) \<Longrightarrow>
   thread_loop (Suc fuel) interval action w s =
     (Read_should_run (should_run w (n_reads s)) # es @
      fst (thread_loop fuel interval action w s2),
      snd (thread_loop fuel interval action w s2))"
  by (simp add: thread_loop_Suc del: thread_loop.simps)

lemma sec_to_ticks_fits:
  assumes "0 < sint (interval :: c_int)" and "sint interval * 4 < 2 ^ 31"
  shows "SEC_TO_TICKS interval = interval * 4"
    and "unat (interval * 4) = 4 * nat (sint interval)"
    and "interval * 4 \<noteq> 0"
proof -
  show "SEC_TO_TICKS interval = interval * 4"
    by (simp add: SEC_TO_TICKS_def)
  have "sint interval < 2 ^ 32"
    using assms(2) by simp
  with assms(1) have su: "uint interval = sint interval"
    by (simp add: uint_sint take_bit_int_eq_self)
  have un: "unat interval = nat (sint interval)"
    by (simp only: unat_eq_nat_uint su)
  have "int (nat (sint interval) * 4) < int (2 ^ 31)"
    using assms by simp
  then have "nat (sint interval) * 4 < 2 ^ 31"
    by (simp only: of_nat_less_iff)
  then have "nat (sint interval) * 4 < 2 ^ 32"
    by simp
  then have "unat interval * unat (4 :: c_uint) < 2 ^ LENGTH(32)"
    by (simp add: un)
  then have "unat (interval * 4) = unat interval * unat (4 :: c_uint)"
    by (simp only: unat_mult_lem)
  then show u: "unat (interval * 4) = 4 * nat (sint interval)"
    by (simp add: un)
  show "interval * 4 \<noteq> 0"
  proof
    assume "interval * 4 = 0"
    then have "unat (interval * 4) = 0" by simp
    with u assms(1) show False by simp
  qed
qed

lemma word_mod_eq_0_iff:
  "((a :: c_uint) mod b = 0) = (unat a mod unat b = 0)"
proof -
  have "(a mod b = 0) = (unat (a mod b) = 0)"
    by (simp add: unat_eq_0)
  then show ?thesis by (simp only: unat_mod)
qed

lemma wake_fits:
  assumes "0 < sint interval" and "sint interval * 4 < 2 ^ 31"
  shows "wake interval action w s =
     (if unat (ticks s + 1) mod (4 * nat (sint interval)) = 0 then
        (if should_run w (n_reads s) \<noteq> 0 then
           (Usleep PERIODIC_TIME_USEC # Client_checkpoint #
            Read_should_run (should_run w (n_reads s)) #
            fst (action w (s\<lparr>ticks := ticks s + 1, n_reads := Suc (n_reads s)\<rparr>)),
            snd (action w (s\<lparr>ticks := ticks s + 1, n_reads := Suc (n_reads s)\<rparr>)))
         else
           ([Usleep PERIODIC_TIME_USEC, Client_checkpoint,
             Read_should_run (should_run w (n_reads s))],
            Inr (s\<lparr>ticks := ticks s + 1, n_reads := Suc (n_reads s)\<rparr>)))
      else ([Usleep PERIODIC_TIME_USEC, Client_checkpoint], Inr (s\<lparr>ticks := ticks s + 1\<rparr>)))"
  using sec_to_ticks_fits [OF assms]
  by (simp add: wake_def word_mod_eq_0_iff split_beta Let_def)

lemma evict_loop_keeps:
  "snd (evict_loop w safe_memory m names cmds s) = Inr s' \<Longrightarrow>
   ticks s' = ticks s \<and> n_reads s' = n_reads s"
proof (induction names arbitrary: m cmds s)
  case Nil
  then show ?case by (simp split: if_splits)
next
  case (Cons a names)
  show ?case
  proof (cases "safe_memory < m")
    case True
    from Cons.prems Cons.IH [of "getCurrentRSS w (n_samples s)" "cmds + 1"
        "s\<lparr>n_samples := Suc (n_samples s)\<rparr>"]
    show ?thesis
      unfolding evict_loop_Cons_above [OF True] by simp
  next
    case False
    with Cons.prems show ?thesis by simp
  qed
qed

lemma action_of_keeps:
  "snd (action_of entry max_memory safe_memory w s) = Inr s' \<Longrightarrow>
   ticks s' = ticks s \<and> n_reads s' = n_reads s"
proof (cases entry)
  case Flush_thread_main
  assume "snd (action_of entry max_memory safe_memory w s) = Inr s'"
  with Flush_thread_main show ?thesis
    by (auto simp: flush_action_def split_beta Let_def split: if_splits)
next
  case Unmap_thread_main
  assume "snd (action_of entry max_memory safe_memory w s) = Inr s'"
  with Unmap_thread_main show ?thesis
    by (auto simp: unmap_action_def split_beta Let_def split: if_splits)
next
  case Memory_check_thread_main
  assume a: "snd (action_of entry max_memory safe_memory w s) = Inr s'"
  show ?thesis
  proof (cases "max_memory < getCurrentRSS w (n_samples s)")
    case False
    with a Memory_check_thread_main show ?thesis
      by (auto simp: memory_check_action_def)
  next
    case above: True
    show ?thesis
    proof (cases "fst (filtmgr_list_filters w (n_lists s)) = 0")
      case False
      with a above Memory_check_thread_main show ?thesis
        by (auto simp: memory_check_action_failed)
    next
      case True
      let ?s2 = "s\<lparr>n_samples := Suc (n_samples s), n_lists := Suc (n_lists s)\<rparr>"
      let ?r = "evict_loop w safe_memory (getCurrentRSS w (n_samples s))
                  (snd (filtmgr_list_filters w (n_lists s))) 0 ?s2"
      from a above True Memory_check_thread_main have "snd ?r = Inr s'"
        by (auto simp: memory_check_action_def split_beta Let_def split: sum.splits prod.splits)
      from evict_loop_keeps [OF this] show ?thesis by simp
    qed
  qed
qed

lemma wake_keeps:
  assumes keep: "\<And>w s s'. snd (action w s) = Inr s' \<Longrightarrow> ticks s' = ticks s \<and> n_reads s' = n_reads s"
    and "snd (wake interval action w s) = Inr s2"
  shows "ticks s2 = ticks s + 1 \<and> n_reads s \<le> n_reads s2"
  using assms(2)
  by (auto simp: wake_def Let_def split_beta split: sum.splits if_splits dest!: keep)

lemma thread_loop_ticks:
  assumes keep: "\<And>w s s'. snd (action w s) = Inr s' \<Longrightarrow> ticks s' = ticks s \<and> n_reads s' = n_reads s"
  shows "snd (thread_loop n interval action w s) = Still_running s' \<Longrightarrow>
         ticks s' = ticks s + of_nat n"
proof (induction n arbitrary: s)
  case 0
  then show ?case by simp
next
  case (Suc n)
  let ?s1 = "s\<lparr>n_reads := Suc (n_reads s)\<rparr>"
  from Suc.prems obtain s2 where w: "snd (wake interval action w ?s1) = Inr s2"
    and rest: "snd (thread_loop n interval action w s2) = Still_running s'"
    by (auto simp: thread_loop_Suc simp del: thread_loop.simps split: if_splits sum.splits)
  from wake_keeps [OF keep w] have "ticks s2 = ticks s + 1" by simp
  with Suc.IH [OF rest] show ?case by simp
qed

lemma unat_tick_succ:
  "unat (t :: c_uint) + 1 < 2 ^ 32 \<Longrightarrow> unat (t + 1) = unat t + 1"
  using unat_add_lem [of t 1] by simp

lemma wake_idle:
  assumes "0 < sint interval" and "sint interval * 4 < 2 ^ 31"
    and "unat (ticks s) + 1 < 4 * nat (sint interval)"
  shows "wake interval action w s =
           ([Usleep PERIODIC_TIME_USEC, Client_checkpoint], Inr (s\<lparr>ticks := ticks s + 1\<rparr>))"
    and "unat (ticks s + 1) = unat (ticks s) + 1"
proof -
  have "int (4 * nat (sint interval)) < int (2 ^ 31)"
    using assms(1,2) by simp
  then have "4 * nat (sint interval) < 2 ^ 31"
    by (simp only: of_nat_less_iff)
  with assms(3) have "unat (ticks s) + 1 < 2 ^ 32" by simp
  then show u: "unat (ticks s + 1) = unat (ticks s) + 1"
    by (rule unat_tick_succ)
  with assms(3) have "unat (ticks s + 1) mod (4 * nat (sint interval)) \<noteq> 0"
    by simp
  then show "wake interval action w s =
           ([Usleep PERIODIC_TIME_USEC, Client_checkpoint], Inr (s\<lparr>ticks := ticks s + 1\<rparr>))"
    by (simp add: wake_fits [OF assms(1,2)])
qed

lemma idle_wakes:
  assumes "0 < sint interval" and "sint interval * 4 < 2 ^ 31"
  shows "unat (ticks s) + n < 4 * nat (sint interval) \<Longrightarrow>
         \<forall>k<n. should_run w (n_reads s + k) \<noteq> 0 \<Longrightarrow>
         thread_loop n interval action w s =
           (concat (map (\<lambda>k. [Read_should_run (should_run w (n_reads s + k)),
                             Usleep PERIODIC_TIME_USEC, Client_checkpoint]) [0..<n]),
            Still_running (s\<lparr>ticks := ticks s + of_nat n, n_reads := n_reads s + n\<rparr>))"
proof (induction n arbitrary: s)
  case 0
  then show ?case by simp
next
  case (Suc n)
  let ?s1 = "s\<lparr>n_reads := Suc (n_reads s)\<rparr>"
  let ?s2 = "?s1\<lparr>ticks := ticks ?s1 + 1\<rparr>"
  from Suc.prems(1) have small: "unat (ticks ?s1) + 1 < 4 * nat (sint interval)" by simp
  note wk1 = wake_idle(1) [OF assms small, of action w]
  note wk2 = wake_idle(2) [OF assms small]
  from Suc.prems(2) have v: "should_run w (n_reads s) \<noteq> 0" by auto
  have "thread_loop n interval action w ?s2 =
           (concat (map (\<lambda>k. [Read_should_run (should_run w (n_reads ?s2 + k)),
                             Usleep PERIODIC_TIME_USEC, Client_checkpoint]) [0..<n]),
            Still_running (?s2\<lparr>ticks := ticks ?s2 + of_nat n, n_reads := n_reads ?s2 + n\<rparr>))"
  proof (rule Suc.IH)
    show "unat (ticks ?s2) + n < 4 * nat (sint interval)"
      using wk2 Suc.prems(1) by simp
    show "\<forall>k<n. should_run w (n_reads ?s2 + k) \<noteq> 0"
    proof (intro allI impI)
      fix k assume "k < n"
      then have "Suc k < Suc n" by simp
      with Suc.prems(2) have "should_run w (n_reads s + Suc k) \<noteq> 0" by blast
      then show "should_run w (n_reads ?s2 + k) \<noteq> 0" by simp
    qed
  qed
  then show ?case
    using v wk1
    by (simp add: thread_loop_Suc concat_map_upt_Suc add.assoc
        del: thread_loop.simps upt_Suc)
qed

lemma idle_events:
  assumes "0 < sint interval" and "sint interval * 4 < 2 ^ 31"
  shows "unat (ticks s) + n < 4 * nat (sint interval) \<Longrightarrow>
         set (fst (thread_loop n interval action w s)) \<subseteq>
           {Usleep PERIODIC_TIME_USEC, Client_checkpoint} \<union> range Read_should_run"
proof (induction n arbitrary: s)
  case 0
  then show ?case by simp
next
  case (Suc n)
  let ?s1 = "s\<lparr>n_reads := Suc (n_reads s)\<rparr>"
  let ?s2 = "?s1\<lparr>ticks := ticks ?s1 + 1\<rparr>"
  from Suc.prems(1) have small: "unat (ticks ?s1) + 1 < 4 * nat (sint interval)" by simp
  note wk1 = wake_idle(1) [OF assms small, of action w]
  note wk2 = wake_idle(2) [OF assms small]
  have "set (fst (thread_loop n interval action w ?s2)) \<subseteq>
           {Usleep PERIODIC_TIME_USEC, Client_checkpoint} \<union> range Read_should_run"
  proof (rule Suc.IH)
    show "unat (ticks ?s2) + n < 4 * nat (sint interval)"
      using wk2 Suc.prems(1) by simp
  qed
  then show ?case
    using wk1
    by (auto simp: thread_loop_Suc simp del: thread_loop.simps)
qed

lemma thread_loop_add:
  "thread_loop n interval action w s = (es, Still_running s') \<Longrightarrow>
   thread_loop (n + m) interval action w s =
     (es @ fst (thread_loop m interval action w s'),
      snd (thread_loop m interval action w s'))"
proof (induction n arbitrary: s es)
  case 0
  then show ?case by simp
next
  case (Suc n)
  let ?s1 = "s\<lparr>n_reads := Suc (n_reads s)\<rparr>"
  from Suc.prems obtain s2 where v: "should_run w (n_reads s) \<noteq> 0"
    and w: "snd (wake interval action w ?s1) = Inr s2"
    and rest: "snd (thread_loop n interval action w s2) = Still_running s'"
    and es: "es = Read_should_run (should_run w (n_reads s)) #
                  fst (wake interval action w ?s1) @ fst (thread_loop n interval action w s2)"
    by (auto simp: thread_loop_Suc simp del: thread_loop.simps split: if_splits sum.splits)
  from rest have "thread_loop n interval action w s2 =
      (fst (thread_loop n interval action w s2), Still_running s')"
    by (simp add: prod_eq_iff)
  from Suc.IH [OF this] v w es show ?case
    by (simp add: thread_loop_Suc del: thread_loop.simps)
qed

subsection \<open>Stopping\<close>

lemma flushed_append: "flushed (xs @ ys) = flushed xs @ flushed ys"
  by (induction xs rule: flushed.induct) simp_all

lemma unmapped_append: "unmapped (xs @ ys) = unmapped xs @ unmapped ys"
  by (induction xs rule: unmapped.induct) simp_all

lemma flushed_flush_pass: "flushed (flush_pass names cmds) = names"
  by (induction names arbitrary: cmds) (simp_all add: flushed_append periodic_checkpoint_def)

lemma unmapped_unmap_pass: "unmapped (unmap_pass names cmds) = names"
  by (induction names arbitrary: cmds) (simp_all add: unmapped_append periodic_checkpoint_def)

lemma evict_loop_ignores_flag:
  "evict_loop (w\<lparr>should_run := flag\<rparr>) safe_memory m names cmds s =
   evict_loop w safe_memory m names cmds s"
  by (induction names arbitrary: m cmds s) simp_all

lemma action_of_ignores_flag:
  "action_of entry max_memory safe_memory (w\<lparr>should_run := flag\<rparr>) s =
   action_of entry max_memory safe_memory w s"
  by (cases entry)
    (simp_all add: flush_action_def unmap_action_def memory_check_action_def
      evict_loop_ignores_flag Let_def split_beta)

lemma quiet_after_stop_append:
  "Read_should_run 0 \<notin> set xs \<Longrightarrow> quiet_after_stop (xs @ ys) = quiet_after_stop ys"
  by (induction xs) auto

lemma quiet_after_stop_absent:
  "Read_should_run 0 \<notin> set xs \<Longrightarrow> quiet_after_stop xs"
  using quiet_after_stop_append [of xs "[]"] by simp

lemma thread_loop_stopped:
  "should_run w (n_reads s) = 0 \<Longrightarrow>
   thread_loop fuel interval action w s =
     (if fuel = 0 then ([], Still_running s) else ([Read_should_run 0], Returned))"
  by (cases fuel) simp_all

lemma wake_cases:
  obtains (fault) f where
      "wake interval action w s = ([Usleep PERIODIC_TIME_USEC, Client_checkpoint], Inl f)"
  | (idle)
      "wake interval action w s =
         ([Usleep PERIODIC_TIME_USEC, Client_checkpoint], Inr (s\<lparr>ticks := ticks s + 1\<rparr>))"
  | (stop)
      "should_run w (n_reads s) = 0"
      "wake interval action w s =
         ([Usleep PERIODIC_TIME_USEC, Client_checkpoint, Read_should_run 0],
          Inr (s\<lparr>ticks := ticks s + 1, n_reads := Suc (n_reads s)\<rparr>))"
  | (fire)
      "should_run w (n_reads s) \<noteq> 0"
      "wake interval action w s =
         (Usleep PERIODIC_TIME_USEC # Client_checkpoint #
          Read_should_run (should_run w (n_reads s)) #
          fst (action w (s\<lparr>ticks := ticks s + 1, n_reads := Suc (n_reads s)\<rparr>)),
          snd (action w (s\<lparr>ticks := ticks s + 1, n_reads := Suc (n_reads s)\<rparr>)))"
proof (cases "SEC_TO_TICKS interval = 0")
  case True
  then have "wake interval action w s =
      ([Usleep PERIODIC_TIME_USEC, Client_checkpoint], Inl Division_by_zero)"
    by (simp add: wake_def)
  then show ?thesis by (rule fault)
next
  case nz: False
  show ?thesis
  proof (cases "(ticks s + 1) mod SEC_TO_TICKS interval = 0")
    case False
    with nz have "wake interval action w s =
        ([Usleep PERIODIC_TIME_USEC, Client_checkpoint], Inr (s\<lparr>ticks := ticks s + 1\<rparr>))"
      by (simp add: wake_def Let_def)
    then show ?thesis by (rule idle)
  next
    case due: True
    show ?thesis
    proof (cases "should_run w (n_reads s) = 0")
      case True
      with nz due have "wake interval action w s =
          ([Usleep PERIODIC_TIME_USEC, Client_checkpoint, Read_should_run 0],
           Inr (s\<lparr>ticks := ticks s + 1, n_reads := Suc (n_reads s)\<rparr>))"
        by (simp add: wake_def Let_def)
      with True show ?thesis by (rule stop)
    next
      case False
      with nz due have "wake interval action w s =
          (Usleep PERIODIC_TIME_USEC # Client_checkpoint #
           Read_should_run (should_run w (n_reads s)) #
           fst (action w (s\<lparr>ticks := ticks s + 1, n_reads := Suc (n_reads s)\<rparr>)),
           snd (action w (s\<lparr>ticks := ticks s + 1, n_reads := Suc (n_reads s)\<rparr>)))"
        by (simp add: wake_def Let_def split_beta)
      with False show ?thesis by (rule fire)
    qed
  qed
qed

lemma wake_observes_stop:
  assumes quiet: "\<And>w s e. e \<in> set (fst (action w s)) \<Longrightarrow> \<not> loop_event e"
    and seen: "Read_should_run 0 \<in> set (fst (wake interval action w s))"
  shows "wake interval action w s =
           ([Usleep PERIODIC_TIME_USEC, Client_checkpoint, Read_should_run 0],
            Inr (s\<lparr>ticks := ticks s + 1, n_reads := Suc (n_reads s)\<rparr>)) \<and>
         should_run w (n_reads s) = 0"
proof (cases rule: wake_cases [of interval action w s])
  case (fault f)
  with seen show ?thesis by simp
next
  case idle
  with seen show ?thesis by simp
next
  case stop
  then show ?thesis by simp
next
  case fire
  with seen quiet [of "Read_should_run 0" w
      "s\<lparr>ticks := ticks s + 1, n_reads := Suc (n_reads s)\<rparr>"]
  show ?thesis by auto
qed

lemma latched_next:
  assumes "\<forall>i j. i \<le> j \<longrightarrow> should_run w i = 0 \<longrightarrow> should_run w j = 0"
    and "should_run w i = 0"
  shows "should_run w (Suc i) = 0"
proof -
  from assms(1) have "i \<le> Suc i \<longrightarrow> should_run w i = 0 \<longrightarrow> should_run w (Suc i) = 0"
    by blast
  with assms(2) show ?thesis by simp
qed

lemma quiet_loop:
  assumes latched: "\<forall>i j. i \<le> j \<longrightarrow> should_run w i = 0 \<longrightarrow> should_run w j = 0"
    and quiet: "\<And>w s e. e \<in> set (fst (action w s)) \<Longrightarrow> \<not> loop_event e"
  shows "quiet_after_stop (fst (thread_loop fuel interval action w s))"
proof (induction fuel arbitrary: s)
  case 0
  then show ?case by simp
next
  case (Suc fuel)
  let ?v = "should_run w (n_reads s)"
  let ?s1 = "s\<lparr>n_reads := Suc (n_reads s)\<rparr>"
  show ?case
  proof (cases "?v = 0")
    case True
    then show ?thesis by (simp add: thread_loop_Suc del: thread_loop.simps)
  next
    case run: False
    show ?thesis
    proof (cases rule: wake_cases [of interval action w ?s1])
      case (fault f)
      with run show ?thesis
        by (simp add: thread_loop_Suc del: thread_loop.simps)
    next
      case idle
      with run Suc.IH [of "?s1\<lparr>ticks := ticks ?s1 + 1\<rparr>"] show ?thesis
        by (simp add: thread_loop_Suc del: thread_loop.simps)
    next
      case stop
      let ?s2 = "?s1\<lparr>ticks := ticks ?s1 + 1, n_reads := Suc (n_reads ?s1)\<rparr>"
      from stop(1) have "should_run w (Suc (n_reads s)) = 0" by simp
      from latched_next [OF latched this] have "should_run w (n_reads ?s2) = 0"
        by simp
      from thread_loop_stopped [OF this, of fuel interval action] run stop(2)
      show ?thesis
        by (simp add: thread_loop_Suc del: thread_loop.simps)
    next
      case fire
      let ?s2 = "?s1\<lparr>ticks := ticks ?s1 + 1, n_reads := Suc (n_reads ?s1)\<rparr>"
      have no: "Read_should_run 0 \<notin> set (fst (action w ?s2))"
        using quiet [of "Read_should_run 0" w ?s2] by auto
      show ?thesis
      proof (cases "snd (action w ?s2)")
        case (Inl f)
        with run fire no show ?thesis
          by (simp add: thread_loop_Suc quiet_after_stop_absent del: thread_loop.simps)
      next
        case (Inr s3)
        with run fire no Suc.IH [of s3] show ?thesis
          by (simp add: thread_loop_Suc quiet_after_stop_append del: thread_loop.simps)
      qed
    qed
  qed
qed

lemma stop_returns:
  assumes latched: "\<forall>i j. i \<le> j \<longrightarrow> should_run w i = 0 \<longrightarrow> should_run w j = 0"
    and quiet: "\<And>w s e. e \<in> set (fst (action w s)) \<Longrightarrow> \<not> loop_event e"
  shows "Read_should_run 0 \<in> set (fst (thread_loop fuel interval action w s)) \<Longrightarrow>
         snd (thread_loop (Suc fuel) interval action w s) = Returned"
proof (induction fuel arbitrary: s)
  case 0
  then show ?case by simp
next
  case (Suc fuel)
  let ?v = "should_run w (n_reads s)"
  let ?s1 = "s\<lparr>n_reads := Suc (n_reads s)\<rparr>"
  note seen = Suc.prems [unfolded thread_loop_Suc [of fuel]]
  show ?case
  proof (cases "?v = 0")
    case True
    then show ?thesis by (simp add: thread_loop_Suc [of "Suc fuel"] del: thread_loop.simps)
  next
    case run: False
    show ?thesis
    proof (cases rule: wake_cases [of interval action w ?s1])
      case (fault f)
      with run seen show ?thesis by simp
    next
      case idle
      with run seen have "Read_should_run 0 \<in>
          set (fst (thread_loop fuel interval action w (?s1\<lparr>ticks := ticks ?s1 + 1\<rparr>)))"
        by simp
      from Suc.IH [OF this] run idle show ?thesis
        by (simp add: thread_loop_Suc [of "Suc fuel"] del: thread_loop.simps)
    next
      case stop
      let ?s2 = "?s1\<lparr>ticks := ticks ?s1 + 1, n_reads := Suc (n_reads ?s1)\<rparr>"
      from stop(1) have "should_run w (Suc (n_reads s)) = 0" by simp
      from latched_next [OF latched this] have "should_run w (n_reads ?s2) = 0"
        by simp
      from thread_loop_stopped [OF this, of "Suc fuel" interval action] run stop(2)
      show ?thesis
        by (simp add: thread_loop_Suc [of "Suc fuel"] del: thread_loop.simps)
    next
      case fire
      let ?s2 = "?s1\<lparr>ticks := ticks ?s1 + 1, n_reads := Suc (n_reads ?s1)\<rparr>"
      have no: "Read_should_run 0 \<notin> set (fst (action w ?s2))"
        using quiet [of "Read_should_run 0" w ?s2] by auto
      show ?thesis
      proof (cases "snd (action w ?s2)")
        case (Inl f)
        with run fire no seen show ?thesis by simp
      next
        case (Inr s3)
        with run fire no seen have
          "Read_should_run 0 \<in> set (fst (thread_loop fuel interval action w s3))"
          by simp
        from Suc.IH [OF this] run fire Inr show ?thesis
          by (simp add: thread_loop_Suc [of "Suc fuel"] del: thread_loop.simps)
      qed
    qed
  qed
qed

subsection \<open>Listings and their release\<close>

lemma released_once_append:
  "\<forall>e\<in>set xs. \<not> listing_event e \<Longrightarrow>
   released_once pending (xs @ ys) = released_once pending ys"
proof (induction xs)
  case Nil
  then show ?case by simp
next
  case (Cons e xs)
  then show ?case by (cases e) simp_all
qed

lemma periodic_checkpoint_no_listing: "e \<in> set (periodic_checkpoint cmds) \<Longrightarrow> \<not> listing_event e"
  by (auto simp: periodic_checkpoint_def split: if_splits)

lemma flush_pass_no_listing: "e \<in> set (flush_pass names cmds) \<Longrightarrow> \<not> listing_event e"
  by (induction names arbitrary: cmds) (auto dest: periodic_checkpoint_no_listing)

lemma unmap_pass_no_listing: "e \<in> set (unmap_pass names cmds) \<Longrightarrow> \<not> listing_event e"
  by (induction names arbitrary: cmds) (auto dest: periodic_checkpoint_no_listing)

lemma evict_loop_no_listing:
  "e \<in> set (fst (evict_loop w safe_memory m names cmds s)) \<Longrightarrow> \<not> listing_event e"
proof (induction names arbitrary: m cmds s)
  case Nil
  then show ?case by (simp split: if_splits)
next
  case (Cons a names)
  show ?case
  proof (cases "safe_memory < m")
    case True
    from Cons.prems show ?thesis
      unfolding evict_loop_Cons_above [OF True]
      by (auto dest: periodic_checkpoint_no_listing Cons.IH)
  next
    case False
    with Cons.prems show ?thesis by simp
  qed
qed

lemma flush_action_released:
  "released_once None (fst (flush_action w s) @ rest) = released_once None rest"
proof (cases "fst (filtmgr_list_filters w (n_lists s)) = 0")
  case False
  then show ?thesis by (simp add: flush_action_failed)
next
  case True
  then have "filtmgr_list_filters w (n_lists s) = (0, snd (filtmgr_list_filters w (n_lists s)))"
    by (simp add: prod_eq_iff)
  from flush_action_listed [OF this] show ?thesis
    by (simp add: released_once_append flush_pass_no_listing)
qed

lemma unmap_action_released:
  "released_once None (fst (unmap_action w s) @ rest) = released_once None rest"
proof (cases "fst (filtmgr_list_cold_filters w (n_lists s)) = 0")
  case False
  then show ?thesis by (simp add: unmap_action_failed)
next
  case True
  then have "filtmgr_list_cold_filters w (n_lists s) =
      (0, snd (filtmgr_list_cold_filters w (n_lists s)))"
    by (simp add: prod_eq_iff)
  from unmap_action_listed [OF this] show ?thesis
    by (simp add: released_once_append unmap_pass_no_listing)
qed

lemma memory_check_action_evicting:
  assumes "max_memory < getCurrentRSS w (n_samples s)"
    and "fst (filtmgr_list_filters w (n_lists s)) = 0"
  shows "memory_check_action max_memory safe_memory w s =
     (Get_current_rss (getCurrentRSS w (n_samples s)) # Syslog_info Max_memory_exceeded #
      List_filters 0 (snd (filtmgr_list_filters w (n_lists s))) #
      fst (evict_loop w safe_memory (getCurrentRSS w (n_samples s))
             (snd (filtmgr_list_filters w (n_lists s))) 0
             (s\<lparr>n_samples := Suc (n_samples s), n_lists := Suc (n_lists s)\<rparr>)) @
      (case snd (evict_loop w safe_memory (getCurrentRSS w (n_samples s))
             (snd (filtmgr_list_filters w (n_lists s))) 0
             (s\<lparr>n_samples := Suc (n_samples s), n_lists := Suc (n_lists s)\<rparr>)) of
         Inl f \<Rightarrow> []
       | Inr s3 \<Rightarrow> [Cleanup_list (snd (filtmgr_list_filters w (n_lists s)))]),
      snd (evict_loop w safe_memory (getCurrentRSS w (n_samples s))
             (snd (filtmgr_list_filters w (n_lists s))) 0
             (s\<lparr>n_samples := Suc (n_samples s), n_lists := Suc (n_lists s)\<rparr>)))"
  using assms
  by (simp add: memory_check_action_def split_beta Let_def split: sum.splits)

lemma memory_check_action_released:
  assumes "snd (memory_check_action max_memory safe_memory w s) = Inr s'"
  shows "released_once None (fst (memory_check_action max_memory safe_memory w s) @ rest) =
         released_once None rest"
proof (cases "max_memory < getCurrentRSS w (n_samples s)")
  case False
  then show ?thesis by (simp add: memory_check_action_below)
next
  case above: True
  show ?thesis
  proof (cases "fst (filtmgr_list_filters w (n_lists s)) = 0")
    case False
    with above show ?thesis by (simp add: memory_check_action_failed)
  next
    case True
    note eq = memory_check_action_evicting [OF above True, of safe_memory]
    from assms show ?thesis
      unfolding eq
      by (simp add: released_once_append evict_loop_no_listing split: sum.splits)
  qed
qed

lemma memory_check_action_unreleased:
  assumes "snd (memory_check_action max_memory safe_memory w s) = Inl f"
  shows "\<not> released_once None (fst (memory_check_action max_memory safe_memory w s))"
proof (cases "max_memory < getCurrentRSS w (n_samples s)")
  case False
  with assms show ?thesis by (simp add: memory_check_action_below)
next
  case above: True
  show ?thesis
  proof (cases "fst (filtmgr_list_filters w (n_lists s)) = 0")
    case False
    with above assms show ?thesis by (simp add: memory_check_action_failed)
  next
    case True
    note eq = memory_check_action_evicting [OF above True, of safe_memory]
    have "released_once (Some (snd (filtmgr_list_filters w (n_lists s))))
        (fst (evict_loop w safe_memory (getCurrentRSS w (n_samples s))
             (snd (filtmgr_list_filters w (n_lists s))) 0
             (s\<lparr>n_samples := Suc (n_samples s), n_lists := Suc (n_lists s)\<rparr>)) @ []) =
      released_once (Some (snd (filtmgr_list_filters w (n_lists s)))) []"
      by (rule released_once_append) (auto dest: evict_loop_no_listing)
    with assms show ?thesis
      unfolding eq by simp
  qed
qed

lemma released_loop:
  assumes rel: "\<And>w s s' rest. snd (action w s) = Inr s' \<Longrightarrow>
      released_once None (fst (action w s) @ rest) = released_once None rest"
  shows "\<forall>f. snd (thread_loop fuel interval action w s) \<noteq> Crashed f \<Longrightarrow>
         released_once None (fst (thread_loop fuel interval action w s))"
proof (induction fuel arbitrary: s)
  case 0
  then show ?case by simp
next
  case (Suc fuel)
  let ?v = "should_run w (n_reads s)"
  let ?s1 = "s\<lparr>n_reads := Suc (n_reads s)\<rparr>"
  note alive = Suc.prems [unfolded thread_loop_Suc [of fuel]]
  show ?case
  proof (cases "?v = 0")
    case True
    then show ?thesis by (simp add: thread_loop_Suc del: thread_loop.simps)
  next
    case run: False
    show ?thesis
    proof (cases rule: wake_cases [of interval action w ?s1])
      case (fault f)
      with run alive show ?thesis by simp
    next
      case idle
      with run alive Suc.IH [of "?s1\<lparr>ticks := ticks ?s1 + 1\<rparr>"] show ?thesis
        by (simp add: thread_loop_Suc del: thread_loop.simps)
    next
      case stop
      let ?s2 = "?s1\<lparr>ticks := ticks ?s1 + 1, n_reads := Suc (n_reads ?s1)\<rparr>"
      from stop run alive Suc.IH [of ?s2] show ?thesis
        by (simp add: thread_loop_Suc del: thread_loop.simps)
    next
      case fire
      let ?s2 = "?s1\<lparr>ticks := ticks ?s1 + 1, n_reads := Suc (n_reads ?s1)\<rparr>"
      show ?thesis
      proof (cases "snd (action w ?s2)")
        case (Inl f)
        with run fire alive show ?thesis by simp
      next
        case (Inr s3)
        with run fire alive Suc.IH [of s3] rel [OF Inr] show ?thesis
          by (simp add: thread_loop_Suc del: thread_loop.simps)
      qed
    qed
  qed
qed

lemma action_of_released:
  "snd (action_of entry max_memory safe_memory w s) = Inr s' \<Longrightarrow>
   released_once None (fst (action_of entry max_memory safe_memory w s) @ rest) =
   released_once None rest"
  by (cases entry)
    (simp_all add: flush_action_released unmap_action_released memory_check_action_released)

lemma released_once_unless_crashed:
  assumes "\<forall>f. snd (run_thread entry fuel config max_memory safe_memory w) \<noteq> Crashed f"
  shows "released_once None (fst (run_thread entry fuel config max_memory safe_memory w))"
proof -
  let ?act = "action_of entry max_memory safe_memory"
  have rel: "\<And>w s s' rest. snd (?act w s) = Inr s' \<Longrightarrow>
      released_once None (fst (?act w s) @ rest) = released_once None rest"
    by (rule action_of_released)
  from assms have "\<forall>f. snd (thread_loop fuel (interval_of entry config) ?act w init_state) \<noteq>
      Crashed f"
    by (simp add: run_thread_unfold)
  with rel have "released_once None
      (fst (thread_loop fuel (interval_of entry config) ?act w init_state))"
    by (rule released_loop)
  then show ?thesis by (simp add: run_thread_unfold)
qed

lemma evict_loop_exhausted:
  assumes "0 < n_samples s"
    and "m = getCurrentRSS w (n_samples s - 1)"
    and "\<forall>j\<le>length names. safe_memory < getCurrentRSS w (n_samples s - 1 + j)"
  shows "snd (evict_loop w safe_memory m names cmds s) = Inl Null_dereference \<and>
         evicted (fst (evict_loop w safe_memory m names cmds s)) = names"
  using assms
proof (induction names arbitrary: m cmds s)
  case Nil
  then show ?case by simp
next
  case (Cons a names)
  from Cons.prems(2,3) have above: "safe_memory < m" by auto
  let ?s = "s\<lparr>n_samples := Suc (n_samples s)\<rparr>"
  let ?m = "getCurrentRSS w (n_samples s)"
  have "snd (evict_loop w safe_memory ?m names (cmds + 1) ?s) = Inl Null_dereference \<and>
        evicted (fst (evict_loop w safe_memory ?m names (cmds + 1) ?s)) = names"
  proof (rule Cons.IH)
    show "0 < n_samples ?s" by simp
    show "?m = getCurrentRSS w (n_samples ?s - 1)" by simp
    show "\<forall>j\<le>length names. safe_memory < getCurrentRSS w (n_samples ?s - 1 + j)"
    proof (intro allI impI)
      fix j assume "j \<le> length names"
      then have "Suc j \<le> length (a # names)" by simp
      with Cons.prems(3) have "safe_memory < getCurrentRSS w (n_samples s - 1 + Suc j)"
        by blast
      with Cons.prems(1) show "safe_memory < getCurrentRSS w (n_samples ?s - 1 + j)"
        by simp
    qed
  qed
  then show ?case
    unfolding evict_loop_Cons_above [OF above]
    by (simp add: evicted_append evicted_periodic_checkpoint del: evict_loop.simps)
qed

subsection \<open>The claims\<close>

text \<open>
  C4. Each start function calls \<^verbatim>\<open>pthread_create\<close> with the main function of its thread and
  returns 1 exactly when the interval it reads from the configuration is strictly positive;
  when the interval is zero or negative it returns 0 and does nothing else, so no thread
  is created.
\<close>

theorem start_thread_iff_interval_positive:
  "start_flush_thread config =
     (if 0 < sint (flush_interval config)
      then ([Pack_args config, Pthread_create Flush_thread_main config], 1) else ([], 0)) \<and>
   start_cold_unmap_thread config =
     (if 0 < sint (cold_interval config)
      then ([Pack_args config, Pthread_create Unmap_thread_main config], 1) else ([], 0)) \<and>
   start_memory_check_thread config =
     (if 0 < sint (memory_check_interval config)
      then ([Pack_args config, Pthread_create Memory_check_thread_main config], 1)
      else ([], 0))"
  by (simp add: start_flush_thread_def start_cold_unmap_thread_def
      start_memory_check_thread_def)

text \<open>
  C7. A pass that processes n filters makes exactly n div 16 checkpoint calls of its own:
  the flush pass and the cold-unmap pass over a listing of n names, and the eviction loop
  for the n filters it evicts. A pass over 33 filters makes 2.
\<close>

theorem mid_pass_checkpoints:
  "count_list (flush_pass names 0) Client_checkpoint = length names div 16 \<and>
   count_list (unmap_pass names 0) Client_checkpoint = length names div 16 \<and>
   count_list (fst (evict_loop w safe_memory current_memory names 0 s)) Client_checkpoint =
     length (evicted (fst (evict_loop w safe_memory current_memory names 0 s))) div 16 \<and>
   count_list (flush_pass (replicate 33 filter_name) 0) Client_checkpoint = 2"
  by (simp add: flush_pass_checkpoints unmap_pass_checkpoints evict_loop_checkpoints)

text \<open>
  C1. The memory thread on a listing of two filters whose eviction leaves the resident set
  at 100 bytes, above the safe mark of 20: after the second eviction the loop test passes
  again with \<open>node\<close> null, and the thread faults on \<^verbatim>\<open>node->filter_name\<close>. The list is never
  released and the thread never reaches its next wake.
\<close>

theorem eviction_past_end_of_list:
  "memory_check_thread_main (Suc (Suc (Suc (Suc 0))))
     \<lparr>flush_interval = 0, cold_interval = 0, memory_check_interval = 1\<rparr> 50 20
     stubborn_world =
   ([Client_checkpoint, Syslog_info (Memory_check_thread_started 1),
     Read_should_run 1, Usleep PERIODIC_TIME_USEC, Client_checkpoint,
     Read_should_run 1, Usleep PERIODIC_TIME_USEC, Client_checkpoint,
     Read_should_run 1, Usleep PERIODIC_TIME_USEC, Client_checkpoint,
     Read_should_run 1, Usleep PERIODIC_TIME_USEC, Client_checkpoint,
     Read_should_run 1, Get_current_rss 100,
     Syslog_info Max_memory_exceeded, List_filters 0 [''a'', ''b''],
     Syslog_info (Unmapping_to_free_ram ''a''),
     Flush_and_unmap_filter ''a'', Get_current_rss 100,
     Syslog_info (Unmapping_to_free_ram ''b''),
     Flush_and_unmap_filter ''b'', Get_current_rss 100],
    Crashed Null_dereference)"
  by (simp add: memory_check_thread_main_def stubborn_world_def init_state_def wake_def
      SEC_TO_TICKS_def memory_check_action_def periodic_checkpoint_def PERIODIC_CHECKPOINT_def
      cong: sum.case_cong_weak prod.case_cong_weak)

text \<open>
  C5. Every wake of the loop calls the checkpoint right after its sleep, before the tick test,
  whatever the interval, the tick counter, the flag or the outcome of an earlier listing:
  the first two events of any wake are the sleep and the checkpoint, and in the trace of
  any of the three threads every sleep is followed at once by a checkpoint.
\<close>

theorem checkpoint_on_every_wake:
  "take 2 (fst (wake interval action w s)) = [Usleep PERIODIC_TIME_USEC, Client_checkpoint] \<and>
   checkpoint_follows_sleep (fst (run_thread entry fuel config max_memory safe_memory w))"
proof
  show "take 2 (fst (wake interval action w s)) = [Usleep PERIODIC_TIME_USEC, Client_checkpoint]"
    using wake_trace [of interval action w s] by auto
  show "checkpoint_follows_sleep (fst (run_thread entry fuel config max_memory safe_memory w))"
    by (simp add: run_thread_unfold checkpoint_follows_sleep_loop action_of_no_loop_event)
qed

text \<open>
  C2. The action of the memory thread on a trigger. When the sample is at or below
  \<open>max_memory\<close> it does nothing else: no listing, no eviction. When the sample is strictly
  above \<open>max_memory\<close> and the listing succeeds, and k is the first index at which the
  samples of this trigger are at or below \<open>safe_memory\<close> (k filters are available), it
  evicts exactly the first k filters of the listing, in order, sampling after each
  eviction, then releases the list.
\<close>

theorem memory_pressure_evicts_minimal_prefix:
  "(getCurrentRSS w (n_samples s) \<le> max_memory \<longrightarrow>
      memory_check_action max_memory safe_memory w s =
        ([Get_current_rss (getCurrentRSS w (n_samples s))],
         Inr (s\<lparr>n_samples := Suc (n_samples s)\<rparr>))) \<and>
   (max_memory < getCurrentRSS w (n_samples s) \<and>
    filtmgr_list_filters w (n_lists s) = (0, names) \<and>
    k \<le> length names \<and>
    (\<forall>j<k. safe_memory < getCurrentRSS w (n_samples s + j)) \<and>
    getCurrentRSS w (n_samples s + k) \<le> safe_memory \<longrightarrow>
      memory_check_action max_memory safe_memory w s =
        (Get_current_rss (getCurrentRSS w (n_samples s)) # Syslog_info Max_memory_exceeded #
         List_filters 0 names #
         concat (map (eviction w (Suc (n_samples s)) names 0) [0..<k]) @ [Cleanup_list names],
         Inr (s\<lparr>n_samples := Suc (n_samples s) + k, n_lists := Suc (n_lists s)\<rparr>)) \<and>
      evicted (fst (memory_check_action max_memory safe_memory w s)) = take k names)"
proof (intro conjI impI)
  assume "getCurrentRSS w (n_samples s) \<le> max_memory"
  then show "memory_check_action max_memory safe_memory w s =
        ([Get_current_rss (getCurrentRSS w (n_samples s))],
         Inr (s\<lparr>n_samples := Suc (n_samples s)\<rparr>))"
    by (rule memory_check_action_below)
next
  assume a: "max_memory < getCurrentRSS w (n_samples s) \<and>
    filtmgr_list_filters w (n_lists s) = (0, names) \<and>
    k \<le> length names \<and>
    (\<forall>j<k. safe_memory < getCurrentRSS w (n_samples s + j)) \<and>
    getCurrentRSS w (n_samples s + k) \<le> safe_memory"
  let ?s2 = "s\<lparr>n_samples := Suc (n_samples s), n_lists := Suc (n_lists s)\<rparr>"
  have loop: "evict_loop w safe_memory (getCurrentRSS w (n_samples s)) names 0 ?s2 =
      (concat (map (eviction w (n_samples ?s2) names 0) [0..<k]),
       Inr (?s2\<lparr>n_samples := n_samples ?s2 + k\<rparr>))"
    using a by (intro evict_loop_trace) simp_all
  have eq: "memory_check_action max_memory safe_memory w s =
        (Get_current_rss (getCurrentRSS w (n_samples s)) # Syslog_info Max_memory_exceeded #
         List_filters 0 names #
         concat (map (eviction w (Suc (n_samples s)) names 0) [0..<k]) @ [Cleanup_list names],
         Inr (s\<lparr>n_samples := Suc (n_samples s) + k, n_lists := Suc (n_lists s)\<rparr>))"
    using a memory_check_action_listed [of max_memory w s names safe_memory, OF _ _ loop]
    by simp
  show "memory_check_action max_memory safe_memory w s =
        (Get_current_rss (getCurrentRSS w (n_samples s)) # Syslog_info Max_memory_exceeded #
         List_filters 0 names #
         concat (map (eviction w (Suc (n_samples s)) names 0) [0..<k]) @ [Cleanup_list names],
         Inr (s\<lparr>n_samples := Suc (n_samples s) + k, n_lists := Suc (n_lists s)\<rparr>))"
    by (rule eq)
  show "evicted (fst (memory_check_action max_memory safe_memory w s)) = take k names"
    using a by (simp add: eq evicted_append evicted_evictions)
qed

theorem memory_pressure_evicts_minimal_prefix_witness:
  "memory_check_action 50 20 draining_world init_state =
     ([Get_current_rss 100, Syslog_info Max_memory_exceeded,
       List_filters 0 [''a'', ''b'', ''c'', ''d'', ''e''],
       Syslog_info (Unmapping_to_free_ram ''a''), Flush_and_unmap_filter ''a'',
       Get_current_rss 70,
       Syslog_info (Unmapping_to_free_ram ''b''), Flush_and_unmap_filter ''b'',
       Get_current_rss 40,
       Syslog_info (Unmapping_to_free_ram ''c''), Flush_and_unmap_filter ''c'',
       Get_current_rss 10,
       Cleanup_list [''a'', ''b'', ''c'', ''d'', ''e'']],
      Inr \<lparr>ticks = 0, n_reads = 0, n_lists = 1, n_samples = 4\<rparr>) \<and>
   evicted (fst (memory_check_action 50 20 draining_world init_state)) = [''a'', ''b'', ''c''] \<and>
   memory_check_action 50 20 draining_world (init_state\<lparr>n_samples := 2\<rparr>) =
     ([Get_current_rss 40], Inr (init_state\<lparr>n_samples := 3\<rparr>))"
proof -
  have above: "\<forall>j<3. (20::nat) < getCurrentRSS draining_world (n_samples init_state + j)"
    by (auto simp: draining_world_def init_state_def less_Suc_eq numeral_3_eq_3)
  have upt3: "[0..<3] = [0, 1, 2]"
    by (simp add: upt_conv_Cons)
  show ?thesis
    using above
      memory_pressure_evicts_minimal_prefix [of draining_world init_state 50 20
        "[''a'', ''b'', ''c'', ''d'', ''e'']" 3]
      memory_pressure_evicts_minimal_prefix [of draining_world "init_state\<lparr>n_samples := 2\<rparr>" 50 20
        "[]" 0]
    by (simp add: draining_world_def init_state_def upt3 eviction_def periodic_checkpoint_def
        PERIODIC_CHECKPOINT_def)
qed

text \<open>
  A cycle whose listing fails: the action makes no flush, unmap or flush-and-unmap call and
  no cleanup call, returns normally with only the listing counted, and the loop goes on to
  its next wake. The flush thread and the memory thread log a warning after the failed
  listing. A cycle whose listing succeeds, in any state and so also after a failed one,
  runs its full pass and releases the list.
\<close>

lemma enumeration_failure_skips_cycle:
  "(fst (filtmgr_list_filters w (n_lists s)) \<noteq> 0 \<longrightarrow>
      flush_action w s =
        ([Syslog_info Scheduled_flush_started,
          List_filters (fst (filtmgr_list_filters w (n_lists s)))
            (snd (filtmgr_list_filters w (n_lists s))),
          Syslog_warning Failed_to_list_filters],
         Inr (s\<lparr>n_lists := Suc (n_lists s)\<rparr>))) \<and>
   (fst (filtmgr_list_cold_filters w (n_lists s)) \<noteq> 0 \<longrightarrow>
      unmap_action w s =
        ([Syslog_info Cold_unmap_started,
          List_cold_filters (fst (filtmgr_list_cold_filters w (n_lists s)))
            (snd (filtmgr_list_cold_filters w (n_lists s)))],
         Inr (s\<lparr>n_lists := Suc (n_lists s)\<rparr>))) \<and>
   (max_memory < getCurrentRSS w (n_samples s) \<and>
    fst (filtmgr_list_filters w (n_lists s)) \<noteq> 0 \<longrightarrow>
      memory_check_action max_memory safe_memory w s =
        ([Get_current_rss (getCurrentRSS w (n_samples s)), Syslog_info Max_memory_exceeded,
          List_filters (fst (filtmgr_list_filters w (n_lists s)))
            (snd (filtmgr_list_filters w (n_lists s))),
          Syslog_warning Failed_to_list_filters],
         Inr (s\<lparr>n_samples := Suc (n_samples s), n_lists := Suc (n_lists s)\<rparr>))) \<and>
   (should_run w (n_reads s) \<noteq> 0 \<and>
    wake interval action w (s\<lparr>n_reads := Suc (n_reads s)\<rparr>) = (es, Inr s_next) \<longrightarrow>
      thread_loop (Suc fuel) interval action w s =
        (Read_should_run (should_run w (n_reads s)) # es @
         fst (thread_loop fuel interval action w s_next),
         snd (thread_loop fuel interval action w s_next))) \<and>
   (filtmgr_list_filters w (n_lists s) = (0, names) \<longrightarrow>
      flush_action w s =
        (Syslog_info Scheduled_flush_started # List_filters 0 names #
         flush_pass names 0 @ [Cleanup_list names],
         Inr (s\<lparr>n_lists := Suc (n_lists s)\<rparr>))) \<and>
   (filtmgr_list_cold_filters w (n_lists s) = (0, names) \<longrightarrow>
      unmap_action w s =
        (Syslog_info Cold_unmap_started # List_cold_filters 0 names #
         Syslog_info (Cold_filter_count (length names)) #
         unmap_pass names 0 @ [Cleanup_list names],
         Inr (s\<lparr>n_lists := Suc (n_lists s)\<rparr>))) \<and>
   (max_memory < getCurrentRSS w (n_samples s) \<and>
    filtmgr_list_filters w (n_lists s) = (0, names) \<and>
    evict_loop w safe_memory (getCurrentRSS w (n_samples s)) names 0
      (s\<lparr>n_samples := Suc (n_samples s), n_lists := Suc (n_lists s)\<rparr>) = (evs, Inr s_end) \<longrightarrow>
      memory_check_action max_memory safe_memory w s =
        (Get_current_rss (getCurrentRSS w (n_samples s)) # Syslog_info Max_memory_exceeded #
         List_filters 0 names # evs @ [Cleanup_list names], Inr s_end))"
  by (intro conjI impI)
    (simp_all add: flush_action_failed unmap_action_failed memory_check_action_failed
      thread_loop_continues flush_action_listed unmap_action_listed memory_check_action_listed
      del: thread_loop.simps)

lemma enumeration_failure_skips_cycle_example:
  "flush_action flaky_world init_state =
     ([Syslog_info Scheduled_flush_started, List_filters (- 1) [],
       Syslog_warning Failed_to_list_filters], Inr (init_state\<lparr>n_lists := 1\<rparr>)) \<and>
   flush_action flaky_world (init_state\<lparr>n_lists := 1\<rparr>) =
     ([Syslog_info Scheduled_flush_started, List_filters 0 [''a''], Flush_filter ''a'',
       Cleanup_list [''a'']], Inr (init_state\<lparr>n_lists := 2\<rparr>)) \<and>
   unmap_action flaky_world init_state =
     ([Syslog_info Cold_unmap_started, List_cold_filters (- 1) []],
      Inr (init_state\<lparr>n_lists := 1\<rparr>)) \<and>
   unmap_action flaky_world (init_state\<lparr>n_lists := 1\<rparr>) =
     ([Syslog_info Cold_unmap_started, List_cold_filters 0 [''a''],
       Syslog_info (Cold_filter_count 1), Syslog_info (Unmapping_cold ''a''),
       Unmap_filter ''a'', Cleanup_list [''a'']], Inr (init_state\<lparr>n_lists := 2\<rparr>)) \<and>
   memory_check_action 50 20 flaky_world init_state =
     ([Get_current_rss 100, Syslog_info Max_memory_exceeded, List_filters (- 1) [],
       Syslog_warning Failed_to_list_filters],
      Inr (init_state\<lparr>n_samples := 1, n_lists := 1\<rparr>)) \<and>
   memory_check_action 50 20 flaky_world (init_state\<lparr>n_samples := 1, n_lists := 1\<rparr>) =
     ([Get_current_rss 100, Syslog_info Max_memory_exceeded, List_filters 0 [''a''],
       Syslog_info (Unmapping_to_free_ram ''a''), Flush_and_unmap_filter ''a'',
       Get_current_rss 10, Cleanup_list [''a'']],
      Inr (init_state\<lparr>n_samples := 3, n_lists := 2\<rparr>)) \<and>
   thread_loop (Suc 0) 1 flush_action flaky_world (init_state\<lparr>ticks := 3\<rparr>) =
     ([Read_should_run 1, Usleep PERIODIC_TIME_USEC, Client_checkpoint, Read_should_run 1,
       Syslog_info Scheduled_flush_started, List_filters (- 1) [],
       Syslog_warning Failed_to_list_filters],
      Still_running \<lparr>ticks = 4, n_reads = 2, n_lists = 1, n_samples = 0\<rparr>)"
proof -
  have wk: "wake 1 flush_action flaky_world (init_state\<lparr>ticks := 3, n_reads := Suc 0\<rparr>) =
     ([Usleep PERIODIC_TIME_USEC, Client_checkpoint, Read_should_run 1,
       Syslog_info Scheduled_flush_started, List_filters (- 1) [],
       Syslog_warning Failed_to_list_filters],
      Inr \<lparr>ticks = 4, n_reads = 2, n_lists = 1, n_samples = 0\<rparr>)"
    by (simp add: wake_def SEC_TO_TICKS_def flush_action_def flaky_world_def init_state_def)
  have ev: "evict_loop flaky_world 20 100 [''a''] 0
      \<lparr>ticks = 0, n_reads = 0, n_lists = Suc (Suc 0), n_samples = Suc (Suc 0)\<rparr> =
     ([Syslog_info (Unmapping_to_free_ram ''a''), Flush_and_unmap_filter ''a'',
       Get_current_rss 10],
      Inr \<lparr>ticks = 0, n_reads = 0, n_lists = Suc (Suc 0), n_samples = Suc (Suc (Suc 0))\<rparr>)"
    by (simp add: flaky_world_def periodic_checkpoint_def PERIODIC_CHECKPOINT_def)
  note inst = enumeration_failure_skips_cycle [where w = flaky_world and max_memory = 50
      and safe_memory = 20 and interval = 1 and action = flush_action and fuel = 0]
  note defs = flaky_world_def init_state_def periodic_checkpoint_def PERIODIC_CHECKPOINT_def
  have failed: "flush_action flaky_world init_state =
     ([Syslog_info Scheduled_flush_started, List_filters (- 1) [],
       Syslog_warning Failed_to_list_filters], Inr (init_state\<lparr>n_lists := 1\<rparr>)) \<and>
   unmap_action flaky_world init_state =
     ([Syslog_info Cold_unmap_started, List_cold_filters (- 1) []],
      Inr (init_state\<lparr>n_lists := 1\<rparr>)) \<and>
   memory_check_action 50 20 flaky_world init_state =
     ([Get_current_rss 100, Syslog_info Max_memory_exceeded, List_filters (- 1) [],
       Syslog_warning Failed_to_list_filters],
      Inr (init_state\<lparr>n_samples := 1, n_lists := 1\<rparr>))"
    using inst [where s = init_state and names = "[]" and es = "[]" and s_next = init_state
      and evs = "[]" and s_end = init_state]
    by (simp add: defs)
  have listed: "flush_action flaky_world (init_state\<lparr>n_lists := 1\<rparr>) =
     ([Syslog_info Scheduled_flush_started, List_filters 0 [''a''], Flush_filter ''a'',
       Cleanup_list [''a'']], Inr (init_state\<lparr>n_lists := 2\<rparr>)) \<and>
   unmap_action flaky_world (init_state\<lparr>n_lists := 1\<rparr>) =
     ([Syslog_info Cold_unmap_started, List_cold_filters 0 [''a''],
       Syslog_info (Cold_filter_count 1), Syslog_info (Unmapping_cold ''a''),
       Unmap_filter ''a'', Cleanup_list [''a'']], Inr (init_state\<lparr>n_lists := 2\<rparr>))"
    using inst [where s = "init_state\<lparr>n_lists := 1\<rparr>" and names = "[''a'']" and es = "[]"
      and s_next = init_state and evs = "[]" and s_end = init_state]
    by (simp add: defs)
  have evicting:
    "memory_check_action 50 20 flaky_world (init_state\<lparr>n_samples := 1, n_lists := 1\<rparr>) =
     ([Get_current_rss 100, Syslog_info Max_memory_exceeded, List_filters 0 [''a''],
       Syslog_info (Unmapping_to_free_ram ''a''), Flush_and_unmap_filter ''a'',
       Get_current_rss 10, Cleanup_list [''a'']],
      Inr (init_state\<lparr>n_samples := 3, n_lists := 2\<rparr>))"
    using ev inst [where s = "init_state\<lparr>n_samples := 1, n_lists := 1\<rparr>"
      and names = "[''a'']" and es = "[]" and s_next = init_state
      and evs = "[Syslog_info (Unmapping_to_free_ram ''a''), Flush_and_unmap_filter ''a'',
                  Get_current_rss 10]"
      and s_end = "\<lparr>ticks = 0, n_reads = 0, n_lists = Suc (Suc 0),
                     n_samples = Suc (Suc (Suc 0))\<rparr>"]
    by (simp add: flaky_world_def init_state_def del: evict_loop.simps)
  have continued:
    "thread_loop (Suc 0) 1 flush_action flaky_world (init_state\<lparr>ticks := 3\<rparr>) =
     ([Read_should_run 1, Usleep PERIODIC_TIME_USEC, Client_checkpoint, Read_should_run 1,
       Syslog_info Scheduled_flush_started, List_filters (- 1) [],
       Syslog_warning Failed_to_list_filters],
      Still_running \<lparr>ticks = 4, n_reads = 2, n_lists = 1, n_samples = 0\<rparr>)"
    using wk inst [where s = "init_state\<lparr>ticks := 3\<rparr>" and names = "[]"
      and es = "[Usleep PERIODIC_TIME_USEC, Client_checkpoint, Read_should_run 1,
                 Syslog_info Scheduled_flush_started, List_filters (- 1) [],
                 Syslog_warning Failed_to_list_filters]"
      and s_next = "\<lparr>ticks = 4, n_reads = 2, n_lists = 1, n_samples = 0\<rparr>"
      and evs = "[]" and s_end = init_state]
    by (simp add: flaky_world_def init_state_def del: thread_loop.simps(2))
  from failed listed evicting continued show ?thesis by simp
qed

text \<open>
  C8. The cold-unmap thread with an interval of one second, on a first listing that fails
  with -1: on its fourth wake the thread logs the start of the pass, lists, and goes
  straight on to its fifth wake. It makes no unmap and no cleanup call and does not stop,
  but it logs nothing about the failure, where the flush thread and the memory thread log
  a warning.
\<close>

theorem cold_unmap_failure_not_logged:
  "unmap_thread_main (Suc (Suc (Suc (Suc (Suc 0)))))
     \<lparr>flush_interval = 0, cold_interval = 1, memory_check_interval = 0\<rparr> flaky_world =
   ([Client_checkpoint, Syslog_info (Cold_unmap_thread_started 1),
     Read_should_run 1, Usleep PERIODIC_TIME_USEC, Client_checkpoint,
     Read_should_run 1, Usleep PERIODIC_TIME_USEC, Client_checkpoint,
     Read_should_run 1, Usleep PERIODIC_TIME_USEC, Client_checkpoint,
     Read_should_run 1, Usleep PERIODIC_TIME_USEC, Client_checkpoint,
     Read_should_run 1, Syslog_info Cold_unmap_started, List_cold_filters (- 1) [],
     Read_should_run 1, Usleep PERIODIC_TIME_USEC, Client_checkpoint],
    Still_running \<lparr>ticks = 5, n_reads = 6, n_lists = 1, n_samples = 0\<rparr>)"
  by (simp add: unmap_thread_main_def flaky_world_def init_state_def wake_def
      SEC_TO_TICKS_def unmap_action_def periodic_checkpoint_def PERIODIC_CHECKPOINT_def
      cong: sum.case_cong_weak prod.case_cong_weak)

text \<open>
  C3 (as amended). For an interval I > 0 whose product I * 4 is representable as an
  \<^verbatim>\<open>int\<close>: the conversion yields I * 4 ticks; a wake increments the tick counter once and
  runs the action exactly when the incremented counter is a multiple of I * 4 and the flag
  then reads nonzero; and as long as fewer than 2^32 wakes have happened, the counter
  tested on wake number n + 1 is n + 1, so the action is due exactly on the wakes whose
  number is a multiple of I * 4.
\<close>

theorem interval_test_fires_on_multiples:
  assumes "0 < sint I" and "sint I * 4 < 2 ^ 31"
    and "I = interval_of entry config" and "T = 4 * nat (sint I)"
    and "act = action_of entry max_memory safe_memory"
  shows "unat (SEC_TO_TICKS I) = T \<and>
         wake I act w s =
           (if unat (ticks s + 1) mod T = 0 \<and> should_run w (n_reads s) \<noteq> 0 then
              (Usleep PERIODIC_TIME_USEC # Client_checkpoint #
               Read_should_run (should_run w (n_reads s)) #
               fst (act w (s\<lparr>ticks := ticks s + 1, n_reads := Suc (n_reads s)\<rparr>)),
               snd (act w (s\<lparr>ticks := ticks s + 1, n_reads := Suc (n_reads s)\<rparr>)))
            else if unat (ticks s + 1) mod T = 0 then
              ([Usleep PERIODIC_TIME_USEC, Client_checkpoint, Read_should_run 0],
               Inr (s\<lparr>ticks := ticks s + 1, n_reads := Suc (n_reads s)\<rparr>))
            else
              ([Usleep PERIODIC_TIME_USEC, Client_checkpoint],
               Inr (s\<lparr>ticks := ticks s + 1\<rparr>))) \<and>
         (snd (thread_loop n I act w init_state) = Still_running s' \<and> Suc n < 2 ^ 32 \<longrightarrow>
            unat (ticks s' + 1) = Suc n)"
proof (intro conjI impI)
  show "unat (SEC_TO_TICKS I) = T"
    using sec_to_ticks_fits(1,2) [OF assms(1,2)] assms(4) by simp
  show "wake I act w s =
           (if unat (ticks s + 1) mod T = 0 \<and> should_run w (n_reads s) \<noteq> 0 then
              (Usleep PERIODIC_TIME_USEC # Client_checkpoint #
               Read_should_run (should_run w (n_reads s)) #
               fst (act w (s\<lparr>ticks := ticks s + 1, n_reads := Suc (n_reads s)\<rparr>)),
               snd (act w (s\<lparr>ticks := ticks s + 1, n_reads := Suc (n_reads s)\<rparr>)))
            else if unat (ticks s + 1) mod T = 0 then
              ([Usleep PERIODIC_TIME_USEC, Client_checkpoint, Read_should_run 0],
               Inr (s\<lparr>ticks := ticks s + 1, n_reads := Suc (n_reads s)\<rparr>))
            else
              ([Usleep PERIODIC_TIME_USEC, Client_checkpoint],
               Inr (s\<lparr>ticks := ticks s + 1\<rparr>)))"
    unfolding assms(4) by (simp add: wake_fits [OF assms(1,2)])
next
  assume a: "snd (thread_loop n I act w init_state) = Still_running s' \<and> Suc n < 2 ^ 32"
  have keep: "\<And>w s s'. snd (act w s) = Inr s' \<Longrightarrow> ticks s' = ticks s \<and> n_reads s' = n_reads s"
    unfolding assms(5) by (rule action_of_keeps)
  from a have still: "snd (thread_loop n I act w init_state) = Still_running s'"
    by simp
  have "ticks s' = ticks init_state + of_nat n"
    by (rule thread_loop_ticks [where action = act, OF keep still])
  then have eq: "ticks s' + 1 = of_nat (Suc n)"
    by (simp add: init_state_def)
  have "unat (of_nat (Suc n) :: c_uint) = Suc n"
    using a by (simp add: unat_of_nat del: of_nat_Suc)
  then show "unat (ticks s' + 1) = Suc n"
    by (simp only: eq)
qed

theorem interval_test_fires_on_multiples_witness:
  "snd (thread_loop (Suc (Suc 0)) 1 unmap_action stubborn_world init_state) =
     Still_running \<lparr>ticks = 2, n_reads = 2, n_lists = 0, n_samples = 0\<rparr> \<and>
   wake 1 unmap_action stubborn_world \<lparr>ticks = 2, n_reads = 3, n_lists = 0, n_samples = 0\<rparr> =
     ([Usleep PERIODIC_TIME_USEC, Client_checkpoint],
      Inr \<lparr>ticks = 3, n_reads = 3, n_lists = 0, n_samples = 0\<rparr>) \<and>
   wake 1 unmap_action stubborn_world \<lparr>ticks = 3, n_reads = 4, n_lists = 0, n_samples = 0\<rparr> =
     ([Usleep PERIODIC_TIME_USEC, Client_checkpoint, Read_should_run 1,
       Syslog_info Cold_unmap_started, List_cold_filters 0 [],
       Syslog_info (Cold_filter_count 0), Cleanup_list []],
      Inr \<lparr>ticks = 4, n_reads = 5, n_lists = 1, n_samples = 0\<rparr>)"
proof -
  let ?config = "\<lparr>flush_interval = 0, cold_interval = 1, memory_check_interval = 0\<rparr>"
  have two: "snd (thread_loop (Suc (Suc 0)) 1 unmap_action stubborn_world init_state) =
     Still_running \<lparr>ticks = 2, n_reads = 2, n_lists = 0, n_samples = 0\<rparr>"
    by (simp add: stubborn_world_def init_state_def wake_def
        SEC_TO_TICKS_def cong: sum.case_cong_weak prod.case_cong_weak)
  have act: "unmap_action stubborn_world \<lparr>ticks = 4, n_reads = 5, n_lists = 0, n_samples = 0\<rparr> =
     ([Syslog_info Cold_unmap_started, List_cold_filters 0 [],
       Syslog_info (Cold_filter_count 0), Cleanup_list []],
      Inr \<lparr>ticks = 4, n_reads = 5, n_lists = 1, n_samples = 0\<rparr>)"
    by (simp add: unmap_action_def stubborn_world_def)
  have sr: "should_run stubborn_world k = 1" for k
    by (simp add: stubborn_world_def)
  from
    interval_test_fires_on_multiples [where I = 1 and entry = Unmap_thread_main
      and config = ?config and T = 4 and act = unmap_action and w = stubborn_world
      and s = "\<lparr>ticks = 2, n_reads = 3, n_lists = 0, n_samples = 0\<rparr>" and n = "Suc (Suc 0)"
      and s' = "\<lparr>ticks = 2, n_reads = 2, n_lists = 0, n_samples = 0\<rparr>"]
    interval_test_fires_on_multiples [where I = 1 and entry = Unmap_thread_main
      and config = ?config and T = 4 and act = unmap_action and w = stubborn_world
      and s = "\<lparr>ticks = 3, n_reads = 4, n_lists = 0, n_samples = 0\<rparr>" and n = "Suc (Suc 0)"
      and s' = "\<lparr>ticks = 2, n_reads = 2, n_lists = 0, n_samples = 0\<rparr>"]
    two
  show ?thesis
    by (simp add: sr act del: thread_loop.simps)
qed

theorem ticks_per_interval_needs_representable_product:
  "flush_thread_main (Suc 0)
     \<lparr>flush_interval = 1073741824, cold_interval = 0, memory_check_interval = 0\<rparr>
     stubborn_world =
   ([Client_checkpoint, Syslog_info (Flush_thread_started 1073741824),
     Read_should_run 1, Usleep PERIODIC_TIME_USEC, Client_checkpoint],
    Crashed Division_by_zero)"
  by (simp add: flush_thread_main_def stubborn_world_def init_state_def wake_def
      SEC_TO_TICKS_def cong: sum.case_cong_weak prod.case_cong_weak)

text \<open>
  C10 (as amended). For an interval I > 0 whose product I * 4 is representable as an
  \<^verbatim>\<open>int\<close>, with T = I * 4: during the first T - 1 wakes a thread only reads the flag,
  sleeps and checkpoints (after the checkpoint and the log line of its start); and when
  the flag reads nonzero throughout, wake number T adds exactly the sleep, the checkpoint,
  the second read of the flag and the action, run for the first time.
\<close>

theorem first_action_on_wake_4I:
  assumes "0 < sint I" and "sint I * 4 < 2 ^ 31"
    and "I = interval_of entry config" and "T = 4 * nat (sint I)"
  shows "(n < T \<longrightarrow>
            set (fst (run_thread entry n config max_memory safe_memory w)) \<subseteq>
              {Client_checkpoint, Syslog_info (started_line entry config),
               Usleep PERIODIC_TIME_USEC} \<union> range Read_should_run) \<and>
         ((\<forall>k\<le>T. should_run w k \<noteq> 0) \<longrightarrow>
            fst (run_thread entry T config max_memory safe_memory w) =
              fst (run_thread entry (T - 1) config max_memory safe_memory w) @
              [Read_should_run (should_run w (T - 1)), Usleep PERIODIC_TIME_USEC,
               Client_checkpoint, Read_should_run (should_run w T)] @
              fst (action_of entry max_memory safe_memory w
                     \<lparr>ticks = of_nat T, n_reads = Suc T, n_lists = 0, n_samples = 0\<rparr>))"
proof (intro conjI impI)
  let ?act = "action_of entry max_memory safe_memory"
  {
    assume "n < T"
    then have "unat (ticks init_state) + n < 4 * nat (sint I)"
      using assms(4) by (simp add: init_state_def)
    from idle_events [OF assms(1,2) this, of ?act w]
    show "set (fst (run_thread entry n config max_memory safe_memory w)) \<subseteq>
              {Client_checkpoint, Syslog_info (started_line entry config),
               Usleep PERIODIC_TIME_USEC} \<union> range Read_should_run"
      unfolding run_thread_unfold assms(3) [symmetric] by auto
  }
  {
    assume run: "\<forall>k\<le>T. should_run w k \<noteq> 0"
    have Tpos: "0 < T" using assms(1,4) by simp
    have Tsmall: "T < 2 ^ 32"
    proof -
      have "int T < int (2 ^ 31)" using assms(1,2,4) by simp
      then have "T < 2 ^ 31" by (simp only: of_nat_less_iff)
      then show ?thesis by simp
    qed
    let ?s = "init_state\<lparr>ticks := ticks init_state + of_nat (T - 1),
                n_reads := n_reads init_state + (T - 1)\<rparr>"
    have idle: "thread_loop (T - 1) I ?act w init_state =
        (concat (map (\<lambda>k. [Read_should_run (should_run w (n_reads init_state + k)),
                          Usleep PERIODIC_TIME_USEC, Client_checkpoint]) [0..<T - 1]),
         Still_running ?s)"
    proof (rule idle_wakes [OF assms(1,2)])
      show "unat (ticks init_state) + (T - 1) < 4 * nat (sint I)"
        using Tpos assms(4) by (simp add: init_state_def)
      show "\<forall>k<T - 1. should_run w (n_reads init_state + k) \<noteq> 0"
        using run by (simp add: init_state_def)
    qed
    have tick: "unat (ticks ?s + 1) = T"
    proof -
      have "ticks ?s + 1 = of_nat (Suc (T - 1))"
        by (simp add: init_state_def)
      also have "\<dots> = (of_nat T :: c_uint)"
        using Tpos by simp
      finally have "unat (ticks ?s + 1) = unat (of_nat T :: c_uint)" by simp
      also have "\<dots> = T"
        using Tsmall by (simp add: unat_of_nat)
      finally show ?thesis .
    qed
    have tickw: "ticks ?s + 1 = of_nat T"
    proof -
      have "ticks ?s + 1 = of_nat (Suc (T - 1))"
        by (simp add: init_state_def)
      then show ?thesis using Tpos by simp
    qed
    have r1: "should_run w (T - 1) \<noteq> 0" and r2: "should_run w T \<noteq> 0"
      using run by auto
    have last: "fst (thread_loop (Suc 0) I ?act w ?s) =
        [Read_should_run (should_run w (T - 1)), Usleep PERIODIC_TIME_USEC,
         Client_checkpoint, Read_should_run (should_run w T)] @
        fst (?act w \<lparr>ticks = of_nat T, n_reads = Suc T, n_lists = 0, n_samples = 0\<rparr>)"
      using r1 r2 Tpos tick tickw assms(4)
      by (simp add: thread_loop_Suc wake_fits [OF assms(1,2)] init_state_def
          del: thread_loop.simps(2) split: sum.splits)
    have "thread_loop (T - 1 + Suc 0) I ?act w init_state =
        (fst (thread_loop (T - 1) I ?act w init_state) @ fst (thread_loop (Suc 0) I ?act w ?s),
         snd (thread_loop (Suc 0) I ?act w ?s))"
      using thread_loop_add [OF idle, of "Suc 0"] idle by simp
    moreover have "T - 1 + Suc 0 = T" using Tpos by simp
    ultimately have "fst (thread_loop T I ?act w init_state) =
        fst (thread_loop (T - 1) I ?act w init_state) @ fst (thread_loop (Suc 0) I ?act w ?s)"
      by simp
    then show "fst (run_thread entry T config max_memory safe_memory w) =
              fst (run_thread entry (T - 1) config max_memory safe_memory w) @
              [Read_should_run (should_run w (T - 1)), Usleep PERIODIC_TIME_USEC,
               Client_checkpoint, Read_should_run (should_run w T)] @
              fst (action_of entry max_memory safe_memory w
                     \<lparr>ticks = of_nat T, n_reads = Suc T, n_lists = 0, n_samples = 0\<rparr>)"
      unfolding run_thread_unfold assms(3) [symmetric] last by simp
  }
qed

theorem first_action_on_wake_4I_witness:
  "fst (run_thread Flush_thread_main 3
          \<lparr>flush_interval = 1, cold_interval = 0, memory_check_interval = 0\<rparr> 50 20
          stubborn_world) =
     [Client_checkpoint, Syslog_info (Flush_thread_started 1),
      Read_should_run 1, Usleep PERIODIC_TIME_USEC, Client_checkpoint,
      Read_should_run 1, Usleep PERIODIC_TIME_USEC, Client_checkpoint,
      Read_should_run 1, Usleep PERIODIC_TIME_USEC, Client_checkpoint] \<and>
   fst (run_thread Flush_thread_main 4
          \<lparr>flush_interval = 1, cold_interval = 0, memory_check_interval = 0\<rparr> 50 20
          stubborn_world) =
     [Client_checkpoint, Syslog_info (Flush_thread_started 1),
      Read_should_run 1, Usleep PERIODIC_TIME_USEC, Client_checkpoint,
      Read_should_run 1, Usleep PERIODIC_TIME_USEC, Client_checkpoint,
      Read_should_run 1, Usleep PERIODIC_TIME_USEC, Client_checkpoint,
      Read_should_run 1, Usleep PERIODIC_TIME_USEC, Client_checkpoint,
      Read_should_run 1, Syslog_info Scheduled_flush_started,
      List_filters 0 [''a'', ''b''], Flush_filter ''a'', Flush_filter ''b'',
      Cleanup_list [''a'', ''b'']]"
proof -
  let ?config = "\<lparr>flush_interval = 1, cold_interval = 0, memory_check_interval = 0\<rparr>"
  have n3: "(3::nat) = Suc (Suc (Suc 0))" by simp
  have run3: "fst (run_thread Flush_thread_main 3 ?config 50 20 stubborn_world) =
     [Client_checkpoint, Syslog_info (Flush_thread_started 1),
      Read_should_run 1, Usleep PERIODIC_TIME_USEC, Client_checkpoint,
      Read_should_run 1, Usleep PERIODIC_TIME_USEC, Client_checkpoint,
      Read_should_run 1, Usleep PERIODIC_TIME_USEC, Client_checkpoint]"
    unfolding n3
    by (simp add: flush_thread_main_def stubborn_world_def init_state_def wake_def
        SEC_TO_TICKS_def cong: sum.case_cong_weak prod.case_cong_weak)
  have flag: "\<forall>k\<le>4. should_run stubborn_world k \<noteq> 0"
    by (simp add: stubborn_world_def)
  have act: "fst (flush_action stubborn_world
                    \<lparr>ticks = 4, n_reads = 5, n_lists = 0, n_samples = 0\<rparr>) =
     [Syslog_info Scheduled_flush_started,
      List_filters 0 [''a'', ''b''], Flush_filter ''a'', Flush_filter ''b'',
      Cleanup_list [''a'', ''b'']]"
    by (simp add: flush_action_def stubborn_world_def periodic_checkpoint_def
        PERIODIC_CHECKPOINT_def)
  have sr: "should_run stubborn_world k = 1" for k
    by (simp add: stubborn_world_def)
  from first_action_on_wake_4I [of 1 Flush_thread_main ?config 4 3 50 20 stubborn_world] flag
  have "fst (run_thread Flush_thread_main 4 ?config 50 20 stubborn_world) =
        fst (run_thread Flush_thread_main 3 ?config 50 20 stubborn_world) @
        [Read_should_run 1, Usleep PERIODIC_TIME_USEC, Client_checkpoint, Read_should_run 1] @
        fst (flush_action stubborn_world \<lparr>ticks = 4, n_reads = 5, n_lists = 0, n_samples = 0\<rparr>)"
    by (simp add: sr del: run_thread.simps)
  then show ?thesis
    by (simp add: run3 act del: run_thread.simps)
qed

theorem early_action_when_product_wraps:
  "unmap_thread_main (Suc (Suc (Suc (Suc 0))))
     \<lparr>flush_interval = 0, cold_interval = 1073741825, memory_check_interval = 0\<rparr>
     stubborn_world =
   ([Client_checkpoint, Syslog_info (Cold_unmap_thread_started 1073741825),
     Read_should_run 1, Usleep PERIODIC_TIME_USEC, Client_checkpoint,
     Read_should_run 1, Usleep PERIODIC_TIME_USEC, Client_checkpoint,
     Read_should_run 1, Usleep PERIODIC_TIME_USEC, Client_checkpoint,
     Read_should_run 1, Usleep PERIODIC_TIME_USEC, Client_checkpoint,
     Read_should_run 1, Syslog_info Cold_unmap_started,
     List_cold_filters 0 [], Syslog_info (Cold_filter_count 0),
     Cleanup_list []],
    Still_running \<lparr>ticks = 4, n_reads = 5, n_lists = 1, n_samples = 0\<rparr>)"
  by (simp add: unmap_thread_main_def stubborn_world_def init_state_def wake_def
      SEC_TO_TICKS_def unmap_action_def
      cong: sum.case_cong_weak prod.case_cong_weak)

text \<open>
  C6 (as amended). When the flag, once it reads 0, reads 0 ever after: after the first read
  that sees 0 a thread starts no action and no listing (its trace holds at most one more
  read of the flag), and its loop returns at the next test of the flag. A pass never reads
  the flag, so a pass that has started is the same whatever the flag does meanwhile: the
  flush and cold-unmap passes process every listed filter and release the list; the
  eviction pass of the memory thread, when the samples reach the safe mark after k of the
  listed filters, evicts exactly those k, which need not be all of them, and releases the
  list.
\<close>

theorem cancellation_stops_new_work:
  assumes "\<forall>i j. i \<le> j \<longrightarrow> should_run w i = 0 \<longrightarrow> should_run w j = 0"
  shows "quiet_after_stop (fst (run_thread entry fuel config max_memory safe_memory w)) \<and>
         (Read_should_run 0 \<in> set (fst (run_thread entry fuel config max_memory safe_memory w)) \<longrightarrow>
            snd (run_thread entry (Suc fuel) config max_memory safe_memory w) = Returned) \<and>
         action_of entry max_memory safe_memory (w\<lparr>should_run := flag\<rparr>) s =
           action_of entry max_memory safe_memory w s \<and>
         (filtmgr_list_filters w (n_lists s) = (0, names) \<longrightarrow>
            flushed (fst (flush_action (w\<lparr>should_run := flag\<rparr>) s)) = names \<and>
            last (fst (flush_action (w\<lparr>should_run := flag\<rparr>) s)) = Cleanup_list names) \<and>
         (filtmgr_list_cold_filters w (n_lists s) = (0, names) \<longrightarrow>
            unmapped (fst (unmap_action (w\<lparr>should_run := flag\<rparr>) s)) = names \<and>
            last (fst (unmap_action (w\<lparr>should_run := flag\<rparr>) s)) = Cleanup_list names) \<and>
         (max_memory < getCurrentRSS w (n_samples s) \<and>
          filtmgr_list_filters w (n_lists s) = (0, names) \<and>
          k \<le> length names \<and>
          (\<forall>j<k. safe_memory < getCurrentRSS w (n_samples s + j)) \<and>
          getCurrentRSS w (n_samples s + k) \<le> safe_memory \<longrightarrow>
            evicted (fst (memory_check_action max_memory safe_memory
                            (w\<lparr>should_run := flag\<rparr>) s)) = take k names \<and>
            last (fst (memory_check_action max_memory safe_memory
                         (w\<lparr>should_run := flag\<rparr>) s)) = Cleanup_list names \<and>
            snd (memory_check_action max_memory safe_memory (w\<lparr>should_run := flag\<rparr>) s) =
              Inr (s\<lparr>n_samples := Suc (n_samples s) + k, n_lists := Suc (n_lists s)\<rparr>))"
proof (intro conjI impI)
  let ?act = "action_of entry max_memory safe_memory"
  have quiet: "\<And>w s e. e \<in> set (fst (?act w s)) \<Longrightarrow> \<not> loop_event e"
    by (rule action_of_no_loop_event)
  have "quiet_after_stop (fst (thread_loop fuel (interval_of entry config) ?act w init_state))"
    using assms quiet by (rule quiet_loop)
  then show "quiet_after_stop (fst (run_thread entry fuel config max_memory safe_memory w))"
    by (simp add: run_thread_unfold)
  {
    assume "Read_should_run 0 \<in>
        set (fst (run_thread entry fuel config max_memory safe_memory w))"
    then have seen: "Read_should_run 0 \<in>
        set (fst (thread_loop fuel (interval_of entry config) ?act w init_state))"
      by (simp add: run_thread_unfold)
    have "snd (thread_loop (Suc fuel) (interval_of entry config) ?act w init_state) =
        Returned"
      using assms quiet seen by (rule stop_returns)
    then show "snd (run_thread entry (Suc fuel) config max_memory safe_memory w) = Returned"
      by (simp add: run_thread_unfold del: thread_loop.simps)
  }
  show "?act (w\<lparr>should_run := flag\<rparr>) s = ?act w s"
    by (rule action_of_ignores_flag)
  {
    assume "filtmgr_list_filters w (n_lists s) = (0, names)"
    then have "flush_action (w\<lparr>should_run := flag\<rparr>) s =
        (Syslog_info Scheduled_flush_started # List_filters 0 names #
         flush_pass names 0 @ [Cleanup_list names],
         Inr (s\<lparr>n_lists := Suc (n_lists s)\<rparr>))"
      by (simp add: flush_action_def)
    then show "flushed (fst (flush_action (w\<lparr>should_run := flag\<rparr>) s)) = names"
      and "last (fst (flush_action (w\<lparr>should_run := flag\<rparr>) s)) = Cleanup_list names"
      by (simp_all add: flushed_append flushed_flush_pass)
  }
  {
    assume "filtmgr_list_cold_filters w (n_lists s) = (0, names)"
    then have "unmap_action (w\<lparr>should_run := flag\<rparr>) s =
        (Syslog_info Cold_unmap_started # List_cold_filters 0 names #
         Syslog_info (Cold_filter_count (length names)) #
         unmap_pass names 0 @ [Cleanup_list names],
         Inr (s\<lparr>n_lists := Suc (n_lists s)\<rparr>))"
      by (simp add: unmap_action_def)
    then show "unmapped (fst (unmap_action (w\<lparr>should_run := flag\<rparr>) s)) = names"
      and "last (fst (unmap_action (w\<lparr>should_run := flag\<rparr>) s)) = Cleanup_list names"
      by (simp_all add: unmapped_append unmapped_unmap_pass)
  }
  {
    assume a: "max_memory < getCurrentRSS w (n_samples s) \<and>
          filtmgr_list_filters w (n_lists s) = (0, names) \<and>
          k \<le> length names \<and>
          (\<forall>j<k. safe_memory < getCurrentRSS w (n_samples s + j)) \<and>
          getCurrentRSS w (n_samples s + k) \<le> safe_memory"
    have same: "memory_check_action max_memory safe_memory (w\<lparr>should_run := flag\<rparr>) s =
        memory_check_action max_memory safe_memory w s"
      using action_of_ignores_flag [where entry = Memory_check_thread_main
          and max_memory = max_memory and safe_memory = safe_memory and w = w and flag = flag
          and s = s]
      by simp
    have eq: "memory_check_action max_memory safe_memory w s =
        (Get_current_rss (getCurrentRSS w (n_samples s)) # Syslog_info Max_memory_exceeded #
         List_filters 0 names #
         concat (map (eviction w (Suc (n_samples s)) names 0) [0..<k]) @ [Cleanup_list names],
         Inr (s\<lparr>n_samples := Suc (n_samples s) + k, n_lists := Suc (n_lists s)\<rparr>))"
      using a by (intro memory_check_action_evicts) simp_all
    show "evicted (fst (memory_check_action max_memory safe_memory
                            (w\<lparr>should_run := flag\<rparr>) s)) = take k names"
      using a by (simp add: same eq evicted_append evicted_evictions)
    show "last (fst (memory_check_action max_memory safe_memory
                         (w\<lparr>should_run := flag\<rparr>) s)) = Cleanup_list names"
      by (simp add: same eq)
    show "snd (memory_check_action max_memory safe_memory (w\<lparr>should_run := flag\<rparr>) s) =
              Inr (s\<lparr>n_samples := Suc (n_samples s) + k, n_lists := Suc (n_lists s)\<rparr>)"
      by (simp add: same eq)
  }
qed

theorem cancellation_stops_new_work_witness:
  "unmap_thread_main (Suc (Suc (Suc (Suc (Suc 0)))))
     \<lparr>flush_interval = 0, cold_interval = 1, memory_check_interval = 0\<rparr>
     cancelling_world =
   ([Client_checkpoint, Syslog_info (Cold_unmap_thread_started 1),
     Read_should_run 1, Usleep PERIODIC_TIME_USEC, Client_checkpoint,
     Read_should_run 1, Usleep PERIODIC_TIME_USEC, Client_checkpoint,
     Read_should_run 1, Usleep PERIODIC_TIME_USEC, Client_checkpoint,
     Read_should_run 1, Usleep PERIODIC_TIME_USEC, Client_checkpoint,
     Read_should_run 1, Syslog_info Cold_unmap_started,
     List_cold_filters 0 [''a'', ''b''], Syslog_info (Cold_filter_count 2),
     Syslog_info (Unmapping_cold ''a''), Unmap_filter ''a'',
     Syslog_info (Unmapping_cold ''b''), Unmap_filter ''b'',
     Cleanup_list [''a'', ''b''], Read_should_run 0],
    Returned) \<and>
   snd (unmap_thread_main (Suc (Suc (Suc (Suc (Suc (Suc 0))))))
     \<lparr>flush_interval = 0, cold_interval = 1, memory_check_interval = 0\<rparr>
     cancelling_world) = Returned \<and>
   quiet_after_stop (fst (unmap_thread_main (Suc (Suc (Suc (Suc (Suc 0)))))
     \<lparr>flush_interval = 0, cold_interval = 1, memory_check_interval = 0\<rparr>
     cancelling_world)) \<and>
   unmapped (fst (unmap_action (cancelling_world\<lparr>should_run := \<lambda>k. 0\<rparr>)
     \<lparr>ticks = 4, n_reads = 5, n_lists = 0, n_samples = 0\<rparr>)) = [''a'', ''b''] \<and>
   evicted (fst (memory_check_action 50 20 (cancelling_world\<lparr>should_run := \<lambda>k. 0\<rparr>)
     \<lparr>ticks = 4, n_reads = 5, n_lists = 0, n_samples = 0\<rparr>)) = [''a''] \<and>
   last (fst (memory_check_action 50 20 (cancelling_world\<lparr>should_run := \<lambda>k. 0\<rparr>)
     \<lparr>ticks = 4, n_reads = 5, n_lists = 0, n_samples = 0\<rparr>)) = Cleanup_list [''a'', ''b'']"
proof -
  let ?config = "\<lparr>flush_interval = 0, cold_interval = 1, memory_check_interval = 0\<rparr>"
  have latched: "\<forall>i j. i \<le> j \<longrightarrow> should_run cancelling_world i = 0 \<longrightarrow>
      should_run cancelling_world j = 0"
    by (simp add: cancelling_world_def)
  have run5: "unmap_thread_main (Suc (Suc (Suc (Suc (Suc 0))))) ?config cancelling_world =
   ([Client_checkpoint, Syslog_info (Cold_unmap_thread_started 1),
     Read_should_run 1, Usleep PERIODIC_TIME_USEC, Client_checkpoint,
     Read_should_run 1, Usleep PERIODIC_TIME_USEC, Client_checkpoint,
     Read_should_run 1, Usleep PERIODIC_TIME_USEC, Client_checkpoint,
     Read_should_run 1, Usleep PERIODIC_TIME_USEC, Client_checkpoint,
     Read_should_run 1, Syslog_info Cold_unmap_started,
     List_cold_filters 0 [''a'', ''b''], Syslog_info (Cold_filter_count 2),
     Syslog_info (Unmapping_cold ''a''), Unmap_filter ''a'',
     Syslog_info (Unmapping_cold ''b''), Unmap_filter ''b'',
     Cleanup_list [''a'', ''b''], Read_should_run 0],
    Returned)"
    by (simp add: unmap_thread_main_def cancelling_world_def init_state_def wake_def
        SEC_TO_TICKS_def unmap_action_def periodic_checkpoint_def PERIODIC_CHECKPOINT_def
        cong: sum.case_cong_weak prod.case_cong_weak)
  have listing: "filtmgr_list_cold_filters cancelling_world
      (n_lists \<lparr>ticks = 4, n_reads = 5, n_lists = 0, n_samples = 0\<rparr>) = (0, [''a'', ''b''])"
    by (simp add: cancelling_world_def)
  have samples: "50 < getCurrentRSS cancelling_world 0"
    "\<forall>j<Suc 0. 20 < getCurrentRSS cancelling_world j"
    "getCurrentRSS cancelling_world (Suc 0) \<le> 20"
    "filtmgr_list_filters cancelling_world 0 = (0, [''a'', ''b''])"
    by (simp_all add: cancelling_world_def)
  from cancellation_stops_new_work [OF latched, where entry = Unmap_thread_main
      and fuel = "Suc (Suc (Suc (Suc (Suc 0))))" and config = ?config and max_memory = 50
      and safe_memory = 20 and flag = "\<lambda>k. 0"
      and s = "\<lparr>ticks = 4, n_reads = 5, n_lists = 0, n_samples = 0\<rparr>"
      and names = "[''a'', ''b'']" and k = "Suc 0"] run5 listing samples
  show ?thesis
    by (auto simp del: thread_loop.simps)
qed

theorem eviction_pass_stops_at_safe_mark:
  "memory_check_thread_main (Suc (Suc (Suc (Suc (Suc 0)))))
     \<lparr>flush_interval = 0, cold_interval = 0, memory_check_interval = 1\<rparr> 50 20
     cancelling_world =
   ([Client_checkpoint, Syslog_info (Memory_check_thread_started 1),
     Read_should_run 1, Usleep PERIODIC_TIME_USEC, Client_checkpoint,
     Read_should_run 1, Usleep PERIODIC_TIME_USEC, Client_checkpoint,
     Read_should_run 1, Usleep PERIODIC_TIME_USEC, Client_checkpoint,
     Read_should_run 1, Usleep PERIODIC_TIME_USEC, Client_checkpoint,
     Read_should_run 1, Get_current_rss 100,
     Syslog_info Max_memory_exceeded, List_filters 0 [''a'', ''b''],
     Syslog_info (Unmapping_to_free_ram ''a''),
     Flush_and_unmap_filter ''a'', Get_current_rss 10,
     Cleanup_list [''a'', ''b''], Read_should_run 0],
    Returned)"
  by (simp add: memory_check_thread_main_def cancelling_world_def init_state_def wake_def
      SEC_TO_TICKS_def memory_check_action_def periodic_checkpoint_def PERIODIC_CHECKPOINT_def
      cong: sum.case_cong_weak prod.case_cong_weak)

text \<open>
  C9. The memory thread on a successful listing of no filters, with the resident set above
  both marks: the loop test passes with \<open>node\<close> null, the thread faults, and the list it
  obtained is never released.
\<close>

theorem unreleased_list_after_null_dereference:
  "memory_check_thread_main (Suc (Suc (Suc (Suc 0))))
     \<lparr>flush_interval = 0, cold_interval = 0, memory_check_interval = 1\<rparr> 50 20
     empty_world =
   ([Client_checkpoint, Syslog_info (Memory_check_thread_started 1),
     Read_should_run 1, Usleep PERIODIC_TIME_USEC, Client_checkpoint,
     Read_should_run 1, Usleep PERIODIC_TIME_USEC, Client_checkpoint,
     Read_should_run 1, Usleep PERIODIC_TIME_USEC, Client_checkpoint,
     Read_should_run 1, Usleep PERIODIC_TIME_USEC, Client_checkpoint,
     Read_should_run 1, Get_current_rss 100,
     Syslog_info Max_memory_exceeded, List_filters 0 []],
    Crashed Null_dereference)"
  by (simp add: memory_check_thread_main_def empty_world_def init_state_def wake_def
      SEC_TO_TICKS_def memory_check_action_def periodic_checkpoint_def PERIODIC_CHECKPOINT_def
      cong: sum.case_cong_weak prod.case_cong_weak)

end
